theory Spec2Isabelle
  imports Complex_Main "HOL-Library.AList" "HOL-Library.Multiset" "HOL-Library.Log_Nat"
begin

section \<open>Retrieve and rerank: the notebook's pipeline\<close>

text \<open>
  The notebook \<^verbatim>\<open>retrieve-and-rerank.ipynb\<close> indexes a corpus into a search engine,
  retrieves candidates in batches, rescores them with a cross-encoder and evaluates both
  rankings. The search engine, the cross-encoder and the evaluation library are external;
  the code of the notebook is embedded below function by function, and each external
  call is either a parameter of the embedding or a small model stated as such.
\<close>

subsection \<open>Python dictionaries\<close>

text \<open>
  A Python \<^verbatim>\<open>dict\<close> keeps its keys unique and in insertion order: assigning to a key that
  is present replaces the value in place, assigning to a new key appends. An association
  list updated with \<^const>\<open>AList.update\<close> behaves the same way. Scores are Python
  floats; they are modelled as real numbers.
\<close>

type_synonym ('k, 'v) dict = "('k \<times> 'v) list"

definition dict_keys :: "('k, 'v) dict \<Rightarrow> 'k list" where
  "dict_keys d = map fst d"

definition dict_get :: "('k, 'v) dict \<Rightarrow> 'k \<Rightarrow> 'v option" where
  "dict_get d k = map_of d k"

text \<open>\<^verbatim>\<open>d[k] = v\<close>\<close>

definition dict_setitem :: "'k \<Rightarrow> 'v \<Rightarrow> ('k, 'v) dict \<Rightarrow> ('k, 'v) dict" where
  "dict_setitem k v d = AList.update k v d"

text \<open>\<^verbatim>\<open>d.update(other)\<close>\<close>

definition dict_update :: "('k, 'v) dict \<Rightarrow> ('k, 'v) dict \<Rightarrow> ('k, 'v) dict" where
  "dict_update d other = fold (\<lambda>(k, v). dict_setitem k v) other d"

text \<open>\<^verbatim>\<open>{k: v for (k, v) in items}\<close>\<close>

definition dict_of_items :: "('k \<times> 'v) list \<Rightarrow> ('k, 'v) dict" where
  "dict_of_items items = dict_update [] items"

subsection \<open>Datasets\<close>

text \<open>
  A corpus row has the fields \<^verbatim>\<open>_id\<close>, \<^verbatim>\<open>title\<close>, \<^verbatim>\<open>text\<close>; a query row has
  \<^verbatim>\<open>_id\<close> and \<^verbatim>\<open>text\<close>; a row of the judgments has \<^verbatim>\<open>query-id\<close>,
  \<^verbatim>\<open>corpus-id\<close> and \<^verbatim>\<open>score\<close>.
\<close>

record corpus_row =
  row_id :: string
  row_title :: string
  row_text :: string

record query_row =
  q_id :: string
  q_text :: string

record qrels_row =
  qrel_query_id :: string
  qrel_corpus_id :: string
  qrel_score :: int

subsection \<open>The retriever: \<^verbatim>\<open>retrieve\<close>\<close>

text \<open>
  The request body built by \<^verbatim>\<open>generate_request\<close>. The argument \<^verbatim>\<open>size\<close> of
  \<^verbatim>\<open>retrieve\<close> is written \<open>sz\<close> below.
\<close>

record multi_match =
  mm_query :: string
  mm_type :: string
  mm_fields :: "string list"
  mm_tie_breaker :: real

record search_body =
  body_source :: bool
  body_query :: multi_match
  body_size :: int

text \<open>
  The list handed to \<^verbatim>\<open>msearch\<close> alternates an empty header \<^verbatim>\<open>{}\<close> and a request
  body.
\<close>

datatype es_item = Header | Body search_body

record msearch_call =
  call_searches :: "es_item list"
  call_index :: string
  call_search_type :: string

text \<open>
  One item of \<^verbatim>\<open>es_response["responses"]\<close>: either it carries \<^verbatim>\<open>hits.hits\<close>, a list
  of hits with \<^verbatim>\<open>_id\<close> and \<^verbatim>\<open>_score\<close>, or it has no \<^verbatim>\<open>hits\<close> key (the item the
  engine returns for a search that failed on its own), and reading \<^verbatim>\<open>resp["hits"]\<close>
  raises \<^verbatim>\<open>KeyError\<close>.
\<close>

record hit =
  hit_id :: string
  hit_score :: real

datatype es_resp = Hits "hit list" | NoHits

text \<open>
  The search engine is a parameter: \<^verbatim>\<open>es_client.msearch\<close> maps a call to the list of
  responses, or raises an exception, given here by its message.
\<close>

type_synonym es_client = "msearch_call \<Rightarrow> string + es_resp list"

definition generate_request :: "int \<Rightarrow> string \<Rightarrow> search_body" where
  "generate_request sz query_text =
     \<lparr>body_source = False,
      body_query = \<lparr>mm_query = query_text, mm_type = ''best_fields'',
                    mm_fields = [''title'', ''txt''], mm_tie_breaker = 1 / 2\<rparr>,
      body_size = sz\<rparr>"

text \<open>
  The state of \<^verbatim>\<open>retrieve\<close>: its three local variables, the lines printed so far and
  the calls made to \<^verbatim>\<open>msearch\<close> so far.
\<close>

record retrieve_state =
  qids :: "string list"
  requests :: "es_item list"
  es_responses :: "(string, (string, real) dict) dict"
  printed :: "string list"
  calls :: "msearch_call list"

text \<open>
  The loop over \<^verbatim>\<open>zip(query_ids, es_response["responses"])\<close> inside the \<^verbatim>\<open>try\<close>. An item
  without hits raises \<^verbatim>\<open>KeyError('hits')\<close>, which leaves the loop; the entries stored
  before it stay in \<^verbatim>\<open>batch_dict\<close>. The second component is the message of the exception
  raised, if any.
\<close>

fun fill_batch ::
  "(string, (string, real) dict) dict \<Rightarrow> (string \<times> es_resp) list
    \<Rightarrow> (string, (string, real) dict) dict \<times> string option" where
  "fill_batch batch_dict [] = (batch_dict, None)"
| "fill_batch batch_dict ((qid, Hits hs) # rest) =
     fill_batch
       (dict_setitem qid (dict_of_items (map (\<lambda>h. (hit_id h, hit_score h)) hs)) batch_dict)
       rest"
| "fill_batch batch_dict ((qid, NoHits) # rest) =
     (batch_dict, Some (CHR 0x27 # ''hits'' @ [CHR 0x27]))"

definition mk_call :: "string \<Rightarrow> es_item list \<Rightarrow> msearch_call" where
  "mk_call index_name es_requests =
     \<lparr>call_searches = es_requests, call_index = index_name,
      call_search_type = ''dfs_query_then_fetch''\<rparr>"

text \<open>
  \<^verbatim>\<open>retrieve_batch\<close>: one call to \<^verbatim>\<open>msearch\<close>; any exception is caught and printed.
  The result is the batch dictionary and the lines printed.
\<close>

definition retrieve_batch ::
  "es_client \<Rightarrow> string \<Rightarrow> string list \<Rightarrow> es_item list
    \<Rightarrow> (string, (string, real) dict) dict \<times> string list" where
  "retrieve_batch es index_name query_ids es_requests =
     (case es (mk_call index_name es_requests) of
        Inl e \<Rightarrow> ([], [e])
      | Inr responses \<Rightarrow>
          (case fill_batch [] (zip query_ids responses) of
             (batch_dict, None) \<Rightarrow> (batch_dict, [])
           | (batch_dict, Some e) \<Rightarrow> (batch_dict, [e])))"

text \<open>
  \<^verbatim>\<open>es_responses.update(retrieve_batch(qids, requests)); qids = []; requests = []\<close>
\<close>

definition flush :: "es_client \<Rightarrow> string \<Rightarrow> retrieve_state \<Rightarrow> retrieve_state" where
  "flush es index_name st =
     (case retrieve_batch es index_name (qids st) (requests st) of
        (batch_dict, out) \<Rightarrow>
          \<lparr>qids = [], requests = [],
           es_responses = dict_update (es_responses st) batch_dict,
           printed = printed st @ out,
           calls = calls st @ [mk_call index_name (requests st)]\<rparr>)"

text \<open>
  The body of \<^verbatim>\<open>for query in queries\<close>: the three appends, then the flush when the
  batch is full.
\<close>

definition enqueue :: "int \<Rightarrow> retrieve_state \<Rightarrow> query_row \<Rightarrow> retrieve_state" where
  "enqueue sz st query =
     st\<lparr>qids := qids st @ [q_id query],
        requests := requests st @ [Header, Body (generate_request sz (q_text query))]\<rparr>"

definition retrieve_step ::
  "es_client \<Rightarrow> string \<Rightarrow> int \<Rightarrow> int \<Rightarrow> retrieve_state \<Rightarrow> query_row \<Rightarrow> retrieve_state" where
  "retrieve_step es index_name sz batch_size st query =
     (let st' = enqueue sz st query
      in if int (length (qids st')) = batch_size then flush es index_name st' else st')"

fun retrieve_loop ::
  "es_client \<Rightarrow> string \<Rightarrow> int \<Rightarrow> int \<Rightarrow> retrieve_state \<Rightarrow> query_row list \<Rightarrow> retrieve_state" where
  "retrieve_loop es index_name sz batch_size st [] = st"
| "retrieve_loop es index_name sz batch_size st (query # queries) =
     retrieve_loop es index_name sz batch_size
       (retrieve_step es index_name sz batch_size st query) queries"

text \<open>The check for leftovers after the loop.\<close>

definition leftovers :: "es_client \<Rightarrow> string \<Rightarrow> retrieve_state \<Rightarrow> retrieve_state" where
  "leftovers es index_name st = (if length (qids st) > 0 then flush es index_name st else st)"

definition retrieve_init :: retrieve_state where
  "retrieve_init = \<lparr>qids = [], requests = [], es_responses = [], printed = [], calls = []\<rparr>"

text \<open>
  \<^verbatim>\<open>retrieve\<close> returns \<^verbatim>\<open>es_responses\<close>; the final state also holds what was printed and
  the calls that were made.
\<close>

definition retrieve ::
  "query_row list \<Rightarrow> es_client \<Rightarrow> string \<Rightarrow> int \<Rightarrow> int \<Rightarrow> retrieve_state" where
  "retrieve queries es index_name sz batch_size =
     leftovers es index_name (retrieve_loop es index_name sz batch_size retrieve_init queries)"


text \<open>
  The requests that the loop collects for a run of queries, and the request bodies of a
  call: used to state what the search engine is asked and what it answers.
\<close>

definition requests_of :: "int \<Rightarrow> query_row list \<Rightarrow> es_item list" where
  "requests_of sz queries =
     concat (map (\<lambda>query. [Header, Body (generate_request sz (q_text query))]) queries)"

fun bodies :: "es_item list \<Rightarrow> search_body list" where
  "bodies [] = []"
| "bodies (Header # items) = bodies items"
| "bodies (Body b # items) = b # bodies items"

fun is_hits :: "es_resp \<Rightarrow> bool" where
  "is_hits (Hits hs) = True"
| "is_hits NoHits = False"

text \<open>
  A call is answered well when \<^verbatim>\<open>msearch\<close> returns, with one response per search of the
  call, each carrying hits.
\<close>

definition well_answered :: "es_client \<Rightarrow> msearch_call \<Rightarrow> bool" where
  "well_answered es c =
     (case es c of
        Inl e \<Rightarrow> False
      | Inr responses \<Rightarrow>
          length responses = length (bodies (call_searches c)) \<and> list_all is_hits responses)"

text \<open>
  The engine honours the \<^verbatim>\<open>size\<close> of a search when the response to it carries at most
  that many hits.
\<close>

fun within_size :: "search_body \<times> es_resp \<Rightarrow> bool" where
  "within_size (b, Hits hs) = (int (length hs) \<le> body_size b)"
| "within_size (b, NoHits) = True"

definition honours_size :: "es_client \<Rightarrow> bool" where
  "honours_size es \<longleftrightarrow>
     (\<forall>c responses. es c = Inr responses \<longrightarrow>
        list_all within_size (zip (bodies (call_searches c)) responses))"

text \<open>
  The shape of a request body: a best-fields multi-match over the fields \<^verbatim>\<open>title\<close> and
  \<^verbatim>\<open>txt\<close> with tie breaker 0.5.
\<close>

definition best_fields_request :: "search_body \<Rightarrow> bool" where
  "best_fields_request b \<longleftrightarrow>
     mm_type (body_query b) = ''best_fields'' \<and>
     mm_fields (body_query b) = [''title'', ''txt''] \<and>
     mm_tie_breaker (body_query b) = 1 / 2"

fun item_ok :: "es_item \<Rightarrow> bool" where
  "item_ok Header = True"
| "item_ok (Body b) = best_fields_request b"

definition requests_ok :: "retrieve_state \<Rightarrow> bool" where
  "requests_ok st \<longleftrightarrow>
     list_all item_ok (requests st) \<and>
     list_all (\<lambda>c. list_all item_ok (call_searches c)) (calls st)"

subsection \<open>Downloading queries and judgments: \<^verbatim>\<open>download_queries_and_qrels\<close>\<close>

text \<open>
  The dataset hub is a parameter: it maps a dataset name and a split to the rows of the
  judgments, and a dataset name to the rows of the queries.
\<close>

record hub =
  hub_default :: "string \<Rightarrow> string \<Rightarrow> qrels_row list"
  hub_queries :: "string \<Rightarrow> query_row list"

text \<open>
  \<^verbatim>\<open>qrels[q["query-id"]][q["corpus-id"]] = int(q["score"])\<close> on a
  \<^verbatim>\<open>defaultdict(dict)\<close>: a missing query id starts with the empty dictionary.
\<close>

definition add_qrel ::
  "qrels_row \<Rightarrow> (string, (string, int) dict) dict \<Rightarrow> (string, (string, int) dict) dict" where
  "add_qrel q qrels =
     dict_setitem (qrel_query_id q)
       (dict_setitem (qrel_corpus_id q) (qrel_score q)
          (case dict_get qrels (qrel_query_id q) of None \<Rightarrow> [] | Some d \<Rightarrow> d))
       qrels"

definition download_queries_and_qrels ::
  "hub \<Rightarrow> string \<Rightarrow> query_row list \<times> (string, (string, int) dict) dict" where
  "download_queries_and_qrels h dataset_name =
     (let mteb_dataset_name = ''mteb/'' @ dataset_name;
          qrels_raw = hub_default h mteb_dataset_name
                        (if dataset_name \<noteq> ''msmarco'' then ''test'' else ''dev'');
          qrels = fold add_qrel qrels_raw [];
          queries = filter (\<lambda>r. q_id r \<in> set (dict_keys qrels)) (hub_queries h mteb_dataset_name)
      in (queries, qrels))"

subsection \<open>The reranker\<close>

datatype py_error = KeyError string

text \<open>
  \<^verbatim>\<open>queries_dict\<close> and \<^verbatim>\<open>corpus_dict\<close>; the latter maps a document id to
  \<^verbatim>\<open>f"{doc['title']} {doc['text']}"\<close>.
\<close>

definition queries_dict_of :: "query_row list \<Rightarrow> (string, string) dict" where
  "queries_dict_of queries = dict_of_items (map (\<lambda>q. (q_id q, q_text q)) queries)"

definition corpus_dict_of :: "corpus_row list \<Rightarrow> (string, string) dict" where
  "corpus_dict_of corpus =
     dict_of_items (map (\<lambda>doc. (row_id doc, row_title doc @ '' '' @ row_text doc)) corpus)"

text \<open>\<^verbatim>\<open>[corpus_dict[doc_id] for doc_id in doc_ids]\<close>; a missing id raises.\<close>

fun lookup_all :: "(string, string) dict \<Rightarrow> string list \<Rightarrow> py_error + string list" where
  "lookup_all corpus_dict [] = Inr []"
| "lookup_all corpus_dict (doc_id # doc_ids) =
     (case dict_get corpus_dict doc_id of
        None \<Rightarrow> Inl (KeyError doc_id)
      | Some doc_text \<Rightarrow>
          (case lookup_all corpus_dict doc_ids of
             Inl e \<Rightarrow> Inl e
           | Inr doc_texts \<Rightarrow> Inr (doc_text # doc_texts)))"

text \<open>
  The body of the loop of the reranking cell for one entry \<^verbatim>\<open>(qid, bm25_res)\<close> of
  \<^verbatim>\<open>bm25_responses\<close>: it yields the score map stored under \<^verbatim>\<open>qid\<close> and the lists of
  pairs handed to \<^verbatim>\<open>reranking_model.predict\<close> (none for a query without candidates,
  one otherwise), or the \<^verbatim>\<open>KeyError\<close> of a failed lookup. The model is a parameter;
  \<^verbatim>\<open>float(score)\<close> leaves a score as it is.
\<close>

definition rerank_query ::
  "((string \<times> string) list \<Rightarrow> real list) \<Rightarrow> (string, string) dict \<Rightarrow> (string, string) dict
    \<Rightarrow> string \<Rightarrow> (string, real) dict
    \<Rightarrow> py_error + ((string, real) dict \<times> (string \<times> string) list list)" where
  "rerank_query predict queries_dict corpus_dict qid bm25_res =
     (case dict_get queries_dict qid of
        None \<Rightarrow> Inl (KeyError qid)
      | Some query_text \<Rightarrow>
          (let doc_ids = map fst bm25_res in
           if length doc_ids = 0 then Inr ([], [])
           else
             (case lookup_all corpus_dict doc_ids of
                Inl e \<Rightarrow> Inl e
              | Inr doc_texts \<Rightarrow>
                  (let pairs = map (\<lambda>doc_text. (query_text, doc_text)) doc_texts;
                       scores = predict pairs
                   in Inr (dict_of_items (zip doc_ids scores), [pairs])))))"

text \<open>
  The state of the cell: \<^verbatim>\<open>results_after_reranking\<close> and the calls made to the model so
  far. An exception ends the loop.
\<close>

record rerank_state =
  results_after_reranking :: "(string, (string, real) dict) dict"
  predict_calls :: "(string \<times> string) list list"

fun rerank_loop ::
  "((string \<times> string) list \<Rightarrow> real list) \<Rightarrow> (string, string) dict \<Rightarrow> (string, string) dict
    \<Rightarrow> rerank_state \<Rightarrow> (string, (string, real) dict) dict \<Rightarrow> py_error + rerank_state" where
  "rerank_loop predict queries_dict corpus_dict st [] = Inr st"
| "rerank_loop predict queries_dict corpus_dict st ((qid, bm25_res) # rest) =
     (case rerank_query predict queries_dict corpus_dict qid bm25_res of
        Inl e \<Rightarrow> Inl e
      | Inr (res, ps) \<Rightarrow>
          rerank_loop predict queries_dict corpus_dict
            \<lparr>results_after_reranking = dict_setitem qid res (results_after_reranking st),
             predict_calls = predict_calls st @ ps\<rparr>
            rest)"

definition rerank ::
  "((string \<times> string) list \<Rightarrow> real list) \<Rightarrow> query_row list \<Rightarrow> corpus_row list
    \<Rightarrow> (string, (string, real) dict) dict \<Rightarrow> py_error + rerank_state" where
  "rerank predict queries corpus bm25_responses =
     rerank_loop predict (queries_dict_of queries) (corpus_dict_of corpus)
       \<lparr>results_after_reranking = [], predict_calls = []\<rparr> bm25_responses"

text \<open>The model returns one score for each pair it is given.\<close>

definition one_score_per_pair :: "((string \<times> string) list \<Rightarrow> real list) \<Rightarrow> bool" where
  "one_score_per_pair predict \<longleftrightarrow> (\<forall>pairs. length (predict pairs) = length pairs)"

subsection \<open>Aggregating the metric\<close>

text \<open>
  Both evaluation cells run the same loop over the per-query scores:
  \<^verbatim>\<open>eval_scores[metric].append(metric_score)\<close> on a \<^verbatim>\<open>defaultdict(list)\<close>, then print
  \<^verbatim>\<open>np.mean\<close> of each list. The scores are doubles. The loop only stores them, so it is
  embedded for any type of scores, and \<^verbatim>\<open>np.mean\<close>, which is numpy's, is a parameter.
\<close>

definition append_score ::
  "string \<Rightarrow> 's \<Rightarrow> (string, 's list) dict \<Rightarrow> (string, 's list) dict" where
  "append_score metric metric_score eval_scores =
     dict_setitem metric
       ((case dict_get eval_scores metric of None \<Rightarrow> [] | Some l \<Rightarrow> l) @ [metric_score])
       eval_scores"

definition aggregate ::
  "(string, (string, 's) dict) dict \<Rightarrow> (string, 's list) dict" where
  "aggregate eval_per_query =
     fold (\<lambda>(qid, vals) eval_scores.
             fold (\<lambda>(metric, metric_score). append_score metric metric_score) vals eval_scores)
       eval_per_query []"

definition report :: "('s list \<Rightarrow> 's) \<Rightarrow> (string, 's list) dict \<Rightarrow> (string, 's) dict" where
  "report np_mean eval_scores = map (\<lambda>(metric, scores). (metric, np_mean scores)) eval_scores"

text \<open>The scores of one metric over all queries, in the order of the queries.\<close>

definition scores_of :: "string \<Rightarrow> (string, (string, 's) dict) dict \<Rightarrow> 's list" where
  "scores_of metric eval_per_query =
     concat (map (\<lambda>(qid, vals). map snd (filter (\<lambda>(m, s). m = metric) vals)) eval_per_query)"

text \<open>
  The list stored under a metric, empty when the metric is absent, and the invariant of
  the aggregation: no list that is stored is empty.
\<close>

definition stored_scores :: "(string, 's list) dict \<Rightarrow> string \<Rightarrow> 's list" where
  "stored_scores eval_scores metric =
     (case dict_get eval_scores metric of None \<Rightarrow> [] | Some l \<Rightarrow> l)"

definition no_empty_list :: "(string, 's list) dict \<Rightarrow> bool" where
  "no_empty_list eval_scores \<longleftrightarrow> (\<forall>metric. dict_get eval_scores metric \<noteq> Some [])"

subsection \<open>The mean of doubles\<close>

text \<open>
  Modelled from the spec: the spec has the evaluator report the arithmetic mean across
  queries; the notebook computes it with \<^verbatim>\<open>np.mean\<close> on doubles, and numpy is not part of
  the repository. What it computes is modelled after IEEE 754 binary64. A finite double
  is the rational number it stands for. The sum and the quotient of two doubles are the
  exact result rounded to 53 significant bits, to the nearest and to the even one of two
  that are as near; the range of the exponent is not modelled, which leaves out overflow
  and underflow. \<^verbatim>\<open>np.mean\<close> adds fewer than eight values one after the other in their
  order, starting from zero, and divides the sum by their number; longer lists, which
  numpy adds in blocks, are not modelled.
\<close>

definition pow2 :: "int \<Rightarrow> rat" where
  "pow2 k = (if 0 \<le> k then 2 ^ nat k else 1 / 2 ^ nat (- k))"

text \<open>The exponent \<open>e\<close> of a number that is not zero: \<open>2\<^sup>e \<le> \<bar>x\<bar> < 2\<^sup>e\<^sup>+\<^sup>1\<close>.\<close>

definition binade :: "rat \<Rightarrow> int" where
  "binade x =
     (if 1 \<le> \<bar>x\<bar> then bitlen \<lfloor>\<bar>x\<bar>\<rfloor> - 1
      else (let k = bitlen \<lfloor>1 / \<bar>x\<bar>\<rfloor> - 1
            in if \<bar>x\<bar> = pow2 (- k) then - k else - k - 1))"

definition round_half_even :: "rat \<Rightarrow> int" where
  "round_half_even y =
     (let f = \<lfloor>y\<rfloor>; r = y - of_int f
      in if r < 1 / 2 then f else if 1 / 2 < r then f + 1 else if even f then f else f + 1)"

text \<open>
  The nearest whole multiple of a unit; for a double the unit in the last place is 52
  binary places below the exponent.
\<close>

definition round_to_unit :: "rat \<Rightarrow> rat \<Rightarrow> rat" where
  "round_to_unit u x = of_int (round_half_even (x / u)) * u"

definition double_round :: "rat \<Rightarrow> rat" where
  "double_round x = (if x = 0 then 0 else round_to_unit (pow2 (binade x - 52)) x)"

definition double_add :: "rat \<Rightarrow> rat \<Rightarrow> rat" where
  "double_add x y = double_round (x + y)"

definition double_div :: "rat \<Rightarrow> rat \<Rightarrow> rat" where
  "double_div x y = double_round (x / y)"

definition double_mean :: "rat list \<Rightarrow> rat" where
  "double_mean xs = double_div (foldl double_add 0 xs) (of_nat (length xs))"

text \<open>
  Three queries whose one relevant document is ranked second, fourth and eighth: their
  values of \<^verbatim>\<open>ndcg_cut_10\<close> are the doubles 0.6309297535714575, 0.43067655807339306 and
  0.31546487678572877.
\<close>

definition ex_eval_per_query :: "(string, (string, rat) dict) dict" where
  "ex_eval_per_query =
     [(''q1'', [(''ndcg_cut_10'', 2841455003081375 / 2 ^ 52)]),
      (''q2'', [(''ndcg_cut_10'', 7758379145826163 / 2 ^ 54)]),
      (''q3'', [(''ndcg_cut_10'', 2841455003081375 / 2 ^ 53)])]"

subsection \<open>The indexer: \<^verbatim>\<open>create_index\<close> and \<^verbatim>\<open>index_corpus\<close>\<close>

text \<open>The actions yielded by \<^verbatim>\<open>get_iterable\<close>, one for each row of the corpus.\<close>

record es_action =
  action_id :: string
  action_op_type :: string
  action_refresh :: string
  action_title :: string
  action_txt :: string

definition get_iterable :: "corpus_row list \<Rightarrow> es_action list" where
  "get_iterable corpus =
     map (\<lambda>row. \<lparr>action_id = row_id row, action_op_type = ''index'',
                  action_refresh = ''wait_for'', action_title = row_title row,
                  action_txt = row_text row\<rparr>) corpus"

text \<open>
  Modelled from the spec: the search engine is external, the notebook only calls its
  client. The spec has the indexer create or reuse a named index and write all documents
  into it, a document being an id with a title and a text, and has the index queryable
  after a synchronous refresh. Accordingly a cluster maps index names to indices; an index
  holds the documents written to it, keyed by \<^verbatim>\<open>_id\<close>, and the documents that a search
  or a count sees, which are those written before the last refresh. An action with
  \<^verbatim>\<open>_op_type\<close> \<^verbatim>\<open>index\<close> stores its document under its \<^verbatim>\<open>_id\<close> and replaces the
  document stored under that id, if there is one; the notebook uses no other operation,
  and any other is refused here. Which actions the engine accepts is a parameter. The
  bulk helper raises when an action has failed, and a write to an index that does not
  exist creates it. Settings, mappings and analyzers play no part.
\<close>

record es_index =
  stored :: "(string, es_action) dict"
  searchable :: "(string, es_action) dict"

type_synonym cluster = "(string, es_index) dict"

definition empty_index :: es_index where
  "empty_index = \<lparr>stored = [], searchable = []\<rparr>"

text \<open>
  \<^verbatim>\<open>es_client.options(ignore_status=[400]).indices.create(index=name, ...)\<close>: when the
  index exists the engine answers 400, which is ignored, and the index stays as it is.
\<close>

definition create_index :: "string \<Rightarrow> cluster \<Rightarrow> cluster" where
  "create_index name cl =
     (case dict_get cl name of
        Some idx \<Rightarrow> cl
      | None \<Rightarrow> dict_setitem name empty_index cl)"

definition write_action :: "es_action \<Rightarrow> es_index \<Rightarrow> es_index" where
  "write_action a idx = idx\<lparr>stored := dict_setitem (action_id a) a (stored idx)\<rparr>"

definition bulk ::
  "(es_action \<Rightarrow> bool) \<Rightarrow> string \<Rightarrow> es_action list \<Rightarrow> cluster \<Rightarrow> string + cluster" where
  "bulk accepts index_name actions cl =
     (if list_all (\<lambda>a. action_op_type a = ''index'' \<and> accepts a) actions then
        Inr (dict_setitem index_name
               (fold write_action actions
                  (case dict_get cl index_name of None \<Rightarrow> empty_index | Some idx \<Rightarrow> idx))
               cl)
      else Inl ''BulkIndexError'')"

definition indices_refresh :: "string \<Rightarrow> cluster \<Rightarrow> cluster" where
  "indices_refresh index_name cl =
     (case dict_get cl index_name of
        None \<Rightarrow> cl
      | Some idx \<Rightarrow> dict_setitem index_name (idx\<lparr>searchable := stored idx\<rparr>) cl)"

definition index_corpus ::
  "(es_action \<Rightarrow> bool) \<Rightarrow> corpus_row list \<Rightarrow> string \<Rightarrow> cluster \<Rightarrow> string + cluster" where
  "index_corpus accepts corpus index_name cl =
     (case bulk accepts index_name (get_iterable corpus) cl of
        Inl e \<Rightarrow> Inl e
      | Inr cl' \<Rightarrow> Inr (indices_refresh index_name cl'))"

text \<open>The number of documents that the index shows.\<close>

definition count_docs :: "string \<Rightarrow> cluster \<Rightarrow> nat" where
  "count_docs index_name cl =
     (case dict_get cl index_name of None \<Rightarrow> 0 | Some idx \<Rightarrow> length (searchable idx))"

text \<open>
  The documents of the index come from the corpus when every id stored in it is the id
  of a row.
\<close>

definition index_within :: "corpus_row list \<Rightarrow> string \<Rightarrow> cluster \<Rightarrow> bool" where
  "index_within corpus index_name cl =
     (case dict_get cl index_name of
        None \<Rightarrow> True
      | Some idx \<Rightarrow>
          distinct (dict_keys (stored idx)) \<and>
          list_all (\<lambda>k. k \<in> set (map row_id corpus)) (dict_keys (stored idx)))"

subsection \<open>The evaluator\<close>

text \<open>
  Modelled from the spec: the evaluator is \<^verbatim>\<open>pytrec_eval.RelevanceEvaluator\<close>, a
  library that the notebook calls and whose code is not in the repository. The spec
  names what it computes for a query: the normalized discounted cumulative gain at rank
  10, over the top 10 results of the ranking sorted on score descending. The definition
  is the usual one: the gain of a document is its judged relevance, 0 when it has no
  judgment; the gain at rank \<open>i\<close>, counted from 1, is divided by the binary logarithm
  of \<open>i + 1\<close>; the sum is divided by the sum obtained for the judgments themselves in
  descending order. Scores are reals here, not floats.
\<close>

definition dcg :: "real list \<Rightarrow> real" where
  "dcg gains = sum_list (map (\<lambda>(i, g). g / log 2 (real i + 2)) (enumerate 0 gains))"

definition ndcg_cut_10 :: "(string, int) dict \<Rightarrow> (string, real) dict \<Rightarrow> real" where
  "ndcg_cut_10 qrel ranking =
     (let ranked = take 10 (sort_key (\<lambda>(d, s). - s) ranking);
          gains = map (\<lambda>(d, s). case dict_get qrel d of None \<Rightarrow> 0 | Some r \<Rightarrow> real_of_int r) ranked;
          ideal = take 10 (rev (sort (map (\<lambda>(d, r). real_of_int r) qrel)))
      in if dcg ideal = 0 then 0 else dcg gains / dcg ideal)"

definition evaluate ::
  "(string, (string, int) dict) dict \<Rightarrow> (string, (string, real) dict) dict
    \<Rightarrow> (string, (string, real) dict) dict" where
  "evaluate qrels run =
     concat (map (\<lambda>(qid, ranking).
                    case dict_get qrels qid of
                      None \<Rightarrow> []
                    | Some qrel \<Rightarrow> [(qid, [(''ndcg_cut_10'', ndcg_cut_10 qrel ranking)])])
               run)"

subsection \<open>Invariants of the retrieval loop\<close>

text \<open>
  The pending requests hold one body for each pending query id, and the ids that the loop
  has taken in are the keys of \<^verbatim>\<open>es_responses\<close> together with the pending ids.
\<close>

definition aligned :: "retrieve_state \<Rightarrow> bool" where
  "aligned st \<longleftrightarrow> length (bodies (requests st)) = length (qids st)"

definition seen :: "retrieve_state \<Rightarrow> string set" where
  "seen st = set (dict_keys (es_responses st)) \<union> set (qids st)"

text \<open>
  Every pending request asks for at most \<open>sz\<close> hits, and every score map stored so far
  has at most \<open>sz\<close> entries.
\<close>

definition within_limit :: "int \<Rightarrow> retrieve_state \<Rightarrow> bool" where
  "within_limit sz st \<longleftrightarrow>
     aligned st \<and>
     list_all (\<lambda>b. body_size b = sz) (bodies (requests st)) \<and>
     list_all (\<lambda>(qid, scores). int (length scores) \<le> sz) (es_responses st)"

subsection \<open>Example data\<close>

text \<open>A small corpus, two queries, a first-stage result and a model, used in examples.\<close>

definition ex_queries :: "query_row list" where
  "ex_queries = [\<lparr>q_id = ''q1'', q_text = ''covid''\<rparr>, \<lparr>q_id = ''q2'', q_text = ''masks''\<rparr>]"

definition ex_corpus :: "corpus_row list" where
  "ex_corpus = [\<lparr>row_id = ''d1'', row_title = ''A'', row_text = ''bc''\<rparr>,
                \<lparr>row_id = ''d2'', row_title = [], row_text = ''x''\<rparr>]"

definition ex_bm25 :: "(string, (string, real) dict) dict" where
  "ex_bm25 = [(''q1'', [(''d1'', 7), (''d2'', 5)]), (''q2'', [])]"

definition ex_predict :: "(string \<times> string) list \<Rightarrow> real list" where
  "ex_predict pairs = map (\<lambda>(query_text, doc_text). real (length doc_text)) pairs"

definition ex_hub :: hub where
  "ex_hub = \<lparr>hub_default = (\<lambda>name split.
                 [\<lparr>qrel_query_id = ''q1'', qrel_corpus_id = ''d1'', qrel_score = 1\<rparr>]),
              hub_queries = (\<lambda>name. ex_queries)\<rparr>"

definition ex_es :: es_client where
  "ex_es c = Inr (map (\<lambda>b. Hits [\<lparr>hit_id = ''d1'', hit_score = 7\<rparr>,
                                    \<lparr>hit_id = ''d2'', hit_score = 5\<rparr>])
                   (bodies (call_searches c)))"

definition ex_old_cluster :: cluster where
  "ex_old_cluster =
     [(''reranking-test-trec-covid'',
       \<lparr>stored = [(''old'', \<lparr>action_id = ''old'', action_op_type = ''index'',
                               action_refresh = ''wait_for'', action_title = ''T'',
                               action_txt = ''t''\<rparr>)],
        searchable = [(''old'', \<lparr>action_id = ''old'', action_op_type = ''index'',
                                   action_refresh = ''wait_for'', action_title = ''T'',
                                   action_txt = ''t''\<rparr>)]\<rparr>)]"

subsection \<open>Batches\<close>

text \<open>
  The loop sends a batch when \<^verbatim>\<open>batch_size\<close> queries are pending and sends what is
  left after the last query. So in a run over \<open>pre @ b @ post\<close> the queries \<open>b\<close> make
  up one batch when \<open>pre\<close> is a whole number of full batches and \<open>b\<close> is either full
  or the rest of the input; with a batch size that is not positive the whole input is the
  one batch.
\<close>

definition is_batch :: "int \<Rightarrow> query_row list \<Rightarrow> query_row list \<Rightarrow> query_row list \<Rightarrow> bool" where
  "is_batch batch_size pre b post \<longleftrightarrow>
     b \<noteq> [] \<and>
     (if 0 < batch_size then
        int (length pre) mod batch_size = 0 \<and>
        (int (length b) = batch_size \<or> int (length b) < batch_size \<and> post = [])
      else pre = [] \<and> post = [])"

text \<open>Taking queries in without sending, and a state with nothing pending.\<close>

definition enqueue_all :: "int \<Rightarrow> retrieve_state \<Rightarrow> query_row list \<Rightarrow> retrieve_state" where
  "enqueue_all sz st queries = fold (\<lambda>query st'. enqueue sz st' query) queries st"

definition idle :: "retrieve_state \<Rightarrow> bool" where
  "idle st \<longleftrightarrow> qids st = [] \<and> requests st = []"

text \<open>
  The state without what was printed and without the calls made. A step of the
  retriever acts on this part of the state alone and only adds to the rest.
\<close>

definition quiet :: "retrieve_state \<Rightarrow> retrieve_state" where
  "quiet st = st\<lparr>printed := [], calls := []\<rparr>"

definition log_local :: "(retrieve_state \<Rightarrow> retrieve_state) \<Rightarrow> bool" where
  "log_local f \<longleftrightarrow>
     (\<forall>st. quiet (f st) = quiet (f (quiet st)) \<and>
           printed (f st) = printed st @ printed (f (quiet st)) \<and>
           calls (f st) = calls st @ calls (f (quiet st)))"

text \<open>An engine that fails on every call holding a search for \<^verbatim>\<open>boom\<close>.\<close>

definition ex_failing_es :: es_client where
  "ex_failing_es c =
     (if ''boom'' \<in> set (map (\<lambda>b. mm_query (body_query b)) (bodies (call_searches c)))
      then Inl ''ConnectionTimeout'' else ex_es c)"

text \<open>
  An engine that answers every call, with one response for each search, and whose
  response to a search for \<^verbatim>\<open>broken\<close> is an item without hits.
\<close>

definition ex_item_error_es :: es_client where
  "ex_item_error_es c =
     Inr (map (\<lambda>b. if mm_query (body_query b) = ''broken'' then NoHits
                     else Hits [\<lparr>hit_id = ''d1'', hit_score = 7\<rparr>])
            (bodies (call_searches c)))"

section \<open>Properties\<close>

subsection \<open>Dictionaries\<close>

lemma dict_keys_setitem:
  "set (dict_keys (dict_setitem k v d)) = insert k (set (dict_keys d))"
  using AList.dom_update [of k v d] by (simp add: dict_keys_def dict_setitem_def)

lemma distinct_dict_setitem:
  "distinct (dict_keys d) \<Longrightarrow> distinct (dict_keys (dict_setitem k v d))"
  by (simp add: dict_keys_def dict_setitem_def AList.distinct_update)

lemma dict_get_setitem:
  "dict_get (dict_setitem k v d) k' = (if k' = k then Some v else dict_get d k')"
  by (simp add: dict_get_def dict_setitem_def AList.update_conv')


subsection \<open>The requests of the retriever\<close>

lemma generate_request_ok: "best_fields_request (generate_request sz t)"
  by (simp add: best_fields_request_def generate_request_def)

lemma flush_calls: "calls (flush es ix st) = calls st @ [mk_call ix (requests st)]"
  by (simp add: flush_def split: prod.split)

lemma flush_requests: "requests (flush es ix st) = []"
  by (simp add: flush_def split: prod.split)

lemma flush_qids: "qids (flush es ix st) = []"
  by (simp add: flush_def split: prod.split)

lemma requests_ok_flush: "requests_ok st \<Longrightarrow> requests_ok (flush es ix st)"
  by (simp add: requests_ok_def flush_calls flush_requests mk_call_def)

lemma requests_ok_step:
  assumes "requests_ok st"
  shows "requests_ok (retrieve_step es ix sz bs st q)"
proof -
  have "requests_ok (enqueue sz st q)"
    using assms by (simp add: requests_ok_def enqueue_def generate_request_ok)
  then show ?thesis
    by (simp add: retrieve_step_def Let_def requests_ok_flush)
qed

lemma requests_ok_loop:
  "requests_ok st \<Longrightarrow> requests_ok (retrieve_loop es ix sz bs st qs)"
  by (induction qs arbitrary: st) (simp_all add: requests_ok_step)

lemma requests_ok_retrieve: "requests_ok (retrieve qs es ix sz bs)"
proof -
  have "requests_ok retrieve_init"
    by (simp add: requests_ok_def retrieve_init_def)
  then show ?thesis
    by (simp add: retrieve_def leftovers_def requests_ok_loop requests_ok_flush)
qed

text \<open>
  C9: every request body in every call that \<^verbatim>\<open>retrieve\<close> makes to \<^verbatim>\<open>msearch\<close> is a
  multi-match of type \<^verbatim>\<open>best_fields\<close> over the two fields \<^verbatim>\<open>title\<close> and \<^verbatim>\<open>txt\<close> with
  tie breaker 0.5, whatever the queries, the engine, the size and the batch size.
\<close>

theorem retrieve_issues_best_fields:
  "\<forall>c \<in> set (calls (retrieve queries es index_name sz batch_size)).
     \<forall>b. Body b \<in> set (call_searches c) \<longrightarrow>
       mm_type (body_query b) = ''best_fields'' \<and>
       mm_fields (body_query b) = [''title'', ''txt''] \<and>
       mm_tie_breaker (body_query b) = 1 / 2"
proof (intro ballI allI impI)
  fix c b
  assume c: "c \<in> set (calls (retrieve queries es index_name sz batch_size))"
    and b: "Body b \<in> set (call_searches c)"
  from requests_ok_retrieve [of queries es index_name sz batch_size] c
  have "list_all item_ok (call_searches c)"
    by (simp add: requests_ok_def list_all_iff)
  with b have "item_ok (Body b)"
    by (auto simp: list_all_iff)
  then show "mm_type (body_query b) = ''best_fields'' \<and>
       mm_fields (body_query b) = [''title'', ''txt''] \<and>
       mm_tie_breaker (body_query b) = 1 / 2"
    by (simp add: best_fields_request_def)
qed

theorem retrieve_issues_best_fields_witness:
  "mk_call ''ix'' [Header, Body (generate_request 10 ''covid'')]
     \<in> set (calls (retrieve [\<lparr>q_id = ''q1'', q_text = ''covid''\<rparr>] (\<lambda>c. Inl ''timeout'') ''ix'' 10 32)) \<and>
   Body (generate_request 10 ''covid'')
     \<in> set (call_searches (mk_call ''ix'' [Header, Body (generate_request 10 ''covid'')])) \<and>
   mm_type (body_query (generate_request 10 ''covid'')) = ''best_fields'' \<and>
   mm_fields (body_query (generate_request 10 ''covid'')) = [''title'', ''txt''] \<and>
   mm_tie_breaker (body_query (generate_request 10 ''covid'')) = 1 / 2"
proof -
  have c: "mk_call ''ix'' [Header, Body (generate_request 10 ''covid'')]
     \<in> set (calls (retrieve [\<lparr>q_id = ''q1'', q_text = ''covid''\<rparr>] (\<lambda>c. Inl ''timeout'') ''ix'' 10 32))"
    by (simp add: retrieve_def leftovers_def retrieve_step_def enqueue_def retrieve_init_def
        flush_def retrieve_batch_def)
  have b: "Body (generate_request 10 ''covid'')
     \<in> set (call_searches (mk_call ''ix'' [Header, Body (generate_request 10 ''covid'')]))"
    by (simp add: mk_call_def)
  from retrieve_issues_best_fields [rule_format, OF c b] c b show ?thesis
    by simp
qed

subsection \<open>Batches\<close>

lemma dict_keys_Nil: "dict_keys [] = []"
  by (simp add: dict_keys_def)

lemma dict_keys_Cons: "dict_keys ((k, v) # d) = k # dict_keys d"
  by (simp add: dict_keys_def)

lemma dict_update_Nil: "dict_update d [] = d"
  by (simp add: dict_update_def)

lemma dict_update_Cons: "dict_update d ((k, v) # other) = dict_update (dict_setitem k v d) other"
  by (simp add: dict_update_def)

lemma dict_keys_update:
  "set (dict_keys (dict_update d other)) = set (dict_keys d) \<union> set (dict_keys other)"
proof (induction other arbitrary: d)
  case Nil
  then show ?case by (simp add: dict_update_Nil dict_keys_Nil)
next
  case (Cons p other)
  obtain k v where p: "p = (k, v)" by (cases p)
  show ?case
    unfolding p dict_update_Cons dict_keys_Cons Cons.IH dict_keys_setitem by auto
qed

lemma distinct_dict_update:
  "distinct (dict_keys d) \<Longrightarrow> distinct (dict_keys (dict_update d other))"
proof (induction other arbitrary: d)
  case Nil
  then show ?case by (simp add: dict_update_Nil)
next
  case (Cons p other)
  obtain k v where p: "p = (k, v)" by (cases p)
  show ?case
    unfolding p dict_update_Cons using Cons.prems by (intro Cons.IH distinct_dict_setitem)
qed

lemma fill_batch_keys_subset:
  "set (dict_keys (fst (fill_batch bd zs))) \<subseteq> set (dict_keys bd) \<union> fst ` set zs"
  by (induction bd zs rule: fill_batch.induct) (auto simp: dict_keys_setitem)

lemma fill_batch_keys_hits:
  "list_all is_hits (map snd zs) \<Longrightarrow>
     set (dict_keys (fst (fill_batch bd zs))) = set (dict_keys bd) \<union> fst ` set zs \<and>
     snd (fill_batch bd zs) = None"
  by (induction bd zs rule: fill_batch.induct) (auto simp: dict_keys_setitem)

lemma fill_batch_distinct:
  "distinct (dict_keys bd) \<Longrightarrow> distinct (dict_keys (fst (fill_batch bd zs)))"
  by (induction bd zs rule: fill_batch.induct) (simp_all add: distinct_dict_setitem)

lemma retrieve_batch_Inl:
  "es (mk_call ix reqs) = Inl e \<Longrightarrow> retrieve_batch es ix ids reqs = ([], [e])"
  by (simp add: retrieve_batch_def)

lemma retrieve_batch_Inr:
  assumes "es (mk_call ix reqs) = Inr rs"
  shows "fst (retrieve_batch es ix ids reqs) = fst (fill_batch [] (zip ids rs))"
    and "snd (retrieve_batch es ix ids reqs) =
           (case snd (fill_batch [] (zip ids rs)) of None \<Rightarrow> [] | Some e \<Rightarrow> [e])"
  using assms by (simp_all add: retrieve_batch_def split: prod.split option.split)

lemma retrieve_batch_keys_subset:
  "set (dict_keys (fst (retrieve_batch es ix ids reqs))) \<subseteq> set ids"
proof (cases "es (mk_call ix reqs)")
  case (Inl e)
  then show ?thesis by (simp add: retrieve_batch_Inl dict_keys_def)
next
  case (Inr rs)
  have "set (dict_keys (fst (fill_batch [] (zip ids rs)))) \<subseteq> fst ` set (zip ids rs)"
    using fill_batch_keys_subset [of "[]" "zip ids rs"] by (simp add: dict_keys_def)
  also have "\<dots> \<subseteq> set ids"
    by (auto dest: set_zip_leftD)
  finally show ?thesis
    by (simp add: retrieve_batch_Inr(1) [where es = es, OF Inr])
qed

lemma retrieve_batch_distinct:
  "distinct (dict_keys (fst (retrieve_batch es ix ids reqs)))"
proof (cases "es (mk_call ix reqs)")
  case (Inl e)
  then show ?thesis by (simp add: retrieve_batch_Inl dict_keys_def)
next
  case (Inr rs)
  have "distinct (dict_keys (fst (fill_batch [] (zip ids rs))))"
    by (rule fill_batch_distinct) (simp add: dict_keys_def)
  then show ?thesis
    by (simp add: retrieve_batch_Inr(1) [where es = es, OF Inr])
qed

lemma retrieve_batch_well_answered:
  assumes "well_answered es (mk_call ix reqs)" and "length (bodies reqs) = length ids"
  shows "set (dict_keys (fst (retrieve_batch es ix ids reqs))) = set ids"
    and "snd (retrieve_batch es ix ids reqs) = []"
proof -
  from assms obtain rs where rs: "es (mk_call ix reqs) = Inr rs"
    and len: "length rs = length ids" and hits: "list_all is_hits rs"
    by (auto simp: well_answered_def mk_call_def split: sum.splits)
  have "list_all is_hits (map snd (zip ids rs))"
    using len hits by simp
  from fill_batch_keys_hits [OF this, of "[]"]
  have k: "set (dict_keys (fst (fill_batch [] (zip ids rs)))) = fst ` set (zip ids rs)"
    and n: "snd (fill_batch [] (zip ids rs)) = None"
    by (simp_all add: dict_keys_def)
  have "fst ` set (zip ids rs) = set (map fst (zip ids rs))"
    by simp
  also have "\<dots> = set ids"
    using len by (simp only: map_fst_zip)
  finally have "set (dict_keys (fst (fill_batch [] (zip ids rs)))) = set ids"
    using k by simp
  then show "set (dict_keys (fst (retrieve_batch es ix ids reqs))) = set ids"
    by (simp add: retrieve_batch_Inr(1) [where es = es, OF rs])
  show "snd (retrieve_batch es ix ids reqs) = []"
    by (simp add: retrieve_batch_Inr(2) [where es = es, OF rs] n)
qed

subsection \<open>The keys of the retrieved mapping\<close>

lemma flush_es_responses:
  "es_responses (flush es ix st) =
     dict_update (es_responses st) (fst (retrieve_batch es ix (qids st) (requests st)))"
  by (simp add: flush_def split: prod.split)

lemma flush_printed:
  "printed (flush es ix st) = printed st @ snd (retrieve_batch es ix (qids st) (requests st))"
  by (simp add: flush_def split: prod.split)

lemma bodies_append: "bodies (xs @ ys) = bodies xs @ bodies ys"
  by (induction xs rule: bodies.induct) simp_all

lemma enqueue_simps:
  "qids (enqueue sz st q) = qids st @ [q_id q]"
  "requests (enqueue sz st q) = requests st @ [Header, Body (generate_request sz (q_text q))]"
  "es_responses (enqueue sz st q) = es_responses st"
  "printed (enqueue sz st q) = printed st"
  "calls (enqueue sz st q) = calls st"
  by (simp_all add: enqueue_def)

lemma aligned_enqueue: "aligned st \<Longrightarrow> aligned (enqueue sz st q)"
  by (simp add: aligned_def enqueue_simps bodies_append)

lemma aligned_flush: "aligned (flush es ix st)"
  by (simp add: aligned_def flush_requests flush_qids)

lemma aligned_step: "aligned st \<Longrightarrow> aligned (retrieve_step es ix sz bs st q)"
  by (simp add: retrieve_step_def Let_def aligned_flush aligned_enqueue)

lemma seen_flush_subset: "seen (flush es ix st) \<subseteq> seen st"
  using retrieve_batch_keys_subset [of es ix "qids st" "requests st"]
  by (auto simp: seen_def flush_es_responses flush_qids dict_keys_update)

lemma seen_enqueue: "seen (enqueue sz st q) = insert (q_id q) (seen st)"
  by (auto simp: seen_def enqueue_simps)

lemma seen_step_subset: "seen (retrieve_step es ix sz bs st q) \<subseteq> insert (q_id q) (seen st)"
  using seen_flush_subset [of es ix "enqueue sz st q"]
  by (auto simp: retrieve_step_def Let_def seen_enqueue)

lemma seen_loop_subset:
  "seen (retrieve_loop es ix sz bs st qs) \<subseteq> seen st \<union> q_id ` set qs"
proof (induction qs arbitrary: st)
  case Nil
  then show ?case by simp
next
  case (Cons q qs)
  show ?case
    using Cons.IH [of "retrieve_step es ix sz bs st q"] seen_step_subset [of es ix sz bs st q]
    by auto
qed

lemma seen_leftovers_subset: "seen (leftovers es ix st) \<subseteq> seen st"
  by (simp add: leftovers_def seen_flush_subset)

lemma leftovers_qids: "qids (leftovers es ix st) = []"
  by (simp add: leftovers_def flush_qids)

lemma retrieve_keys_subset:
  "set (dict_keys (es_responses (retrieve queries es ix sz bs))) \<subseteq> q_id ` set queries"
proof -
  have "seen (retrieve queries es ix sz bs) \<subseteq> seen retrieve_init \<union> q_id ` set queries"
    unfolding retrieve_def
    using seen_leftovers_subset seen_loop_subset by (rule subset_trans)
  then show ?thesis
    by (simp add: seen_def retrieve_init_def dict_keys_Nil retrieve_def leftovers_qids)
qed

text \<open>The calls made so far are never dropped.\<close>

lemma calls_step: "set (calls st) \<subseteq> set (calls (retrieve_step es ix sz bs st q))"
  by (auto simp: retrieve_step_def Let_def flush_calls enqueue_simps)

lemma calls_loop: "set (calls st) \<subseteq> set (calls (retrieve_loop es ix sz bs st qs))"
proof (induction qs arbitrary: st)
  case Nil
  then show ?case by simp
next
  case (Cons q qs)
  show ?case
    using Cons.IH [of "retrieve_step es ix sz bs st q"] calls_step [of st es ix sz bs q]
    by auto
qed

lemma calls_leftovers: "set (calls st) \<subseteq> set (calls (leftovers es ix st))"
  by (auto simp: leftovers_def flush_calls)

lemma seen_flush_eq:
  assumes "aligned st" and "well_answered es (mk_call ix (requests st))"
  shows "seen (flush es ix st) = seen st" and "printed (flush es ix st) = printed st"
  using retrieve_batch_well_answered [OF assms(2), of "qids st"] assms(1)
  by (simp_all add: seen_def flush_es_responses flush_qids flush_printed dict_keys_update
      aligned_def)

lemma seen_step_eq:
  assumes "aligned st" and "\<forall>c \<in> set (calls (retrieve_step es ix sz bs st q)). well_answered es c"
  shows "seen (retrieve_step es ix sz bs st q) = insert (q_id q) (seen st)"
    and "printed (retrieve_step es ix sz bs st q) = printed st"
proof -
  let ?st = "enqueue sz st q"
  have al: "aligned ?st"
    using assms(1) by (rule aligned_enqueue)
  show "seen (retrieve_step es ix sz bs st q) = insert (q_id q) (seen st)"
  proof (cases "int (length (qids ?st)) = bs")
    case True
    with assms(2) have "well_answered es (mk_call ix (requests ?st))"
      by (simp add: retrieve_step_def Let_def flush_calls)
    from seen_flush_eq(1) [OF al this] True show ?thesis
      by (simp add: retrieve_step_def Let_def seen_enqueue)
  next
    case False
    then show ?thesis
      by (simp add: retrieve_step_def Let_def seen_enqueue)
  qed
  show "printed (retrieve_step es ix sz bs st q) = printed st"
  proof (cases "int (length (qids ?st)) = bs")
    case True
    with assms(2) have "well_answered es (mk_call ix (requests ?st))"
      by (simp add: retrieve_step_def Let_def flush_calls)
    from seen_flush_eq(2) [OF al this] True show ?thesis
      by (simp add: retrieve_step_def Let_def enqueue_simps)
  next
    case False
    then show ?thesis
      by (simp add: retrieve_step_def Let_def enqueue_simps)
  qed
qed

lemma seen_leftovers_eq:
  assumes "aligned st" and "\<forall>c \<in> set (calls (leftovers es ix st)). well_answered es c"
  shows "seen (leftovers es ix st) = seen st" and "printed (leftovers es ix st) = printed st"
proof -
  show "seen (leftovers es ix st) = seen st"
  proof (cases "length (qids st) > 0")
    case True
    with assms(2) have "well_answered es (mk_call ix (requests st))"
      by (simp add: leftovers_def flush_calls)
    from seen_flush_eq(1) [OF assms(1) this] True show ?thesis
      by (simp add: leftovers_def)
  next
    case False
    then show ?thesis by (simp add: leftovers_def)
  qed
  show "printed (leftovers es ix st) = printed st"
  proof (cases "length (qids st) > 0")
    case True
    with assms(2) have "well_answered es (mk_call ix (requests st))"
      by (simp add: leftovers_def flush_calls)
    from seen_flush_eq(2) [OF assms(1) this] True show ?thesis
      by (simp add: leftovers_def)
  next
    case False
    then show ?thesis by (simp add: leftovers_def)
  qed
qed

lemma seen_run_eq:
  assumes "aligned st"
    and "\<forall>c \<in> set (calls (leftovers es ix (retrieve_loop es ix sz bs st qs))). well_answered es c"
  shows "seen (leftovers es ix (retrieve_loop es ix sz bs st qs)) = seen st \<union> q_id ` set qs \<and>
         printed (leftovers es ix (retrieve_loop es ix sz bs st qs)) = printed st"
  using assms
proof (induction qs arbitrary: st)
  case Nil
  then show ?case
    using seen_leftovers_eq [of st es ix] by simp
next
  case (Cons q qs)
  let ?st = "retrieve_step es ix sz bs st q"
  let ?fin = "leftovers es ix (retrieve_loop es ix sz bs ?st qs)"
  have al: "aligned ?st"
    using Cons.prems(1) by (rule aligned_step)
  have fin: "\<forall>c \<in> set (calls ?fin). well_answered es c"
    using Cons.prems(2) by simp
  have "set (calls ?st) \<subseteq> set (calls ?fin)"
    using calls_loop [of ?st es ix sz bs qs] calls_leftovers by (rule subset_trans)
  with fin have "\<forall>c \<in> set (calls ?st). well_answered es c"
    by blast
  from seen_step_eq [OF Cons.prems(1) this] Cons.IH [OF al fin]
  show ?case by auto
qed

lemma distinct_flush:
  "distinct (dict_keys (es_responses st)) \<Longrightarrow> distinct (dict_keys (es_responses (flush es ix st)))"
  by (simp add: flush_es_responses distinct_dict_update)

lemma distinct_step:
  "distinct (dict_keys (es_responses st)) \<Longrightarrow>
     distinct (dict_keys (es_responses (retrieve_step es ix sz bs st q)))"
  by (simp add: retrieve_step_def Let_def distinct_flush enqueue_simps)

lemma distinct_loop:
  "distinct (dict_keys (es_responses st)) \<Longrightarrow>
     distinct (dict_keys (es_responses (retrieve_loop es ix sz bs st qs)))"
  by (induction qs arbitrary: st) (simp_all add: distinct_step)

lemma distinct_retrieve: "distinct (dict_keys (es_responses (retrieve queries es ix sz bs)))"
proof -
  have "distinct (dict_keys (es_responses retrieve_init))"
    by (simp add: retrieve_init_def dict_keys_Nil)
  then have "distinct (dict_keys (es_responses (retrieve_loop es ix sz bs retrieve_init queries)))"
    by (rule distinct_loop)
  then show ?thesis
    by (simp add: retrieve_def leftovers_def distinct_flush)
qed

text \<open>
  C3, as amended: when every call that \<^verbatim>\<open>retrieve\<close> makes is answered well (the request
  does not fail, and the answer holds one response for each search and every response
  carries hits), the keys of the returned mapping are exactly the ids of the input
  queries, each key once; with pairwise distinct ids the mapping has as many entries as
  there are queries. This holds for every batch size, so also when the last batch is a
  partial one.
\<close>

theorem retrieve_one_entry_per_query:
  assumes "\<forall>c \<in> set (calls (retrieve queries es index_name sz batch_size)). well_answered es c"
  shows "set (dict_keys (es_responses (retrieve queries es index_name sz batch_size)))
           = q_id ` set queries \<and>
         distinct (dict_keys (es_responses (retrieve queries es index_name sz batch_size))) \<and>
         (distinct (map q_id queries) \<longrightarrow>
            length (es_responses (retrieve queries es index_name sz batch_size)) = length queries)"
proof -
  let ?r = "retrieve queries es index_name sz batch_size"
  have al: "aligned retrieve_init"
    by (simp add: aligned_def retrieve_init_def)
  from seen_run_eq [OF al, of es index_name sz batch_size queries] assms
  have "seen ?r = seen retrieve_init \<union> q_id ` set queries"
    by (simp add: retrieve_def)
  then have keys: "set (dict_keys (es_responses ?r)) = q_id ` set queries"
    by (simp add: seen_def retrieve_init_def dict_keys_Nil retrieve_def leftovers_qids)
  have dist: "distinct (dict_keys (es_responses ?r))"
    by (rule distinct_retrieve)
  have "length (es_responses ?r) = length queries" if d: "distinct (map q_id queries)"
  proof -
    have "length (es_responses ?r) = length (dict_keys (es_responses ?r))"
      by (simp add: dict_keys_def)
    also have "\<dots> = card (set (dict_keys (es_responses ?r)))"
      using dist by (simp add: distinct_card)
    also have "\<dots> = card (set (map q_id queries))"
      using keys by simp
    also have "\<dots> = length queries"
      using d by (simp only: distinct_card length_map)
    finally show ?thesis .
  qed
  with keys dist show ?thesis by blast
qed


theorem retrieve_one_entry_per_query_witness:
  "list_all (well_answered (\<lambda>c. Inr (map (\<lambda>b. Hits [\<lparr>hit_id = ''d1'', hit_score = 2\<rparr>])
                                          (bodies (call_searches c)))))
     (calls (retrieve [\<lparr>q_id = ''q1'', q_text = ''a''\<rparr>, \<lparr>q_id = ''q2'', q_text = ''b''\<rparr>,
                       \<lparr>q_id = ''q3'', q_text = ''c''\<rparr>]
              (\<lambda>c. Inr (map (\<lambda>b. Hits [\<lparr>hit_id = ''d1'', hit_score = 2\<rparr>])
                           (bodies (call_searches c)))) ''ix'' 10 2)) \<and>
   set (dict_keys (es_responses
     (retrieve [\<lparr>q_id = ''q1'', q_text = ''a''\<rparr>, \<lparr>q_id = ''q2'', q_text = ''b''\<rparr>,
                \<lparr>q_id = ''q3'', q_text = ''c''\<rparr>]
        (\<lambda>c. Inr (map (\<lambda>b. Hits [\<lparr>hit_id = ''d1'', hit_score = 2\<rparr>])
                     (bodies (call_searches c)))) ''ix'' 10 2))) = {''q1'', ''q2'', ''q3''} \<and>
   length (es_responses
     (retrieve [\<lparr>q_id = ''q1'', q_text = ''a''\<rparr>, \<lparr>q_id = ''q2'', q_text = ''b''\<rparr>,
                \<lparr>q_id = ''q3'', q_text = ''c''\<rparr>]
        (\<lambda>c. Inr (map (\<lambda>b. Hits [\<lparr>hit_id = ''d1'', hit_score = 2\<rparr>])
                     (bodies (call_searches c)))) ''ix'' 10 2)) = 3"
proof -
  let ?es = "\<lambda>c. Inr (map (\<lambda>b. Hits [\<lparr>hit_id = ''d1'', hit_score = 2\<rparr>])
                         (bodies (call_searches c))) :: string + es_resp list"
  let ?qs = "[\<lparr>q_id = ''q1'', q_text = ''a''\<rparr>, \<lparr>q_id = ''q2'', q_text = ''b''\<rparr>,
              \<lparr>q_id = ''q3'', q_text = ''c''\<rparr>]"
  have w: "well_answered ?es c" for c
    by (simp add: well_answered_def list_all_iff)
  then have h: "\<forall>c \<in> set (calls (retrieve ?qs ?es ''ix'' 10 2)). well_answered ?es c"
    by blast
  have l: "list_all (well_answered ?es) (calls (retrieve ?qs ?es ''ix'' 10 2))"
    using w by (simp add: list_all_iff)
  from retrieve_one_entry_per_query [OF h] l show ?thesis
    by simp
qed

text \<open>
  That no request fails is not enough. Here the one request of the run returns, with
  three responses for its three searches; the second response carries no hits, so reading
  it raises \<^verbatim>\<open>KeyError\<close> inside the \<^verbatim>\<open>try\<close>, and the returned mapping has an entry for
  the first query only: the second and the third query, whose own search was answered
  with hits, have none.
\<close>

theorem retrieve_one_entry_per_query_counterexample:
  "calls (retrieve [\<lparr>q_id = ''q1'', q_text = ''covid''\<rparr>, \<lparr>q_id = ''q2'', q_text = ''broken''\<rparr>,
                    \<lparr>q_id = ''q3'', q_text = ''masks''\<rparr>] ex_item_error_es ''ix'' 10 32)
     = [mk_call ''ix'' (requests_of 10
          [\<lparr>q_id = ''q1'', q_text = ''covid''\<rparr>, \<lparr>q_id = ''q2'', q_text = ''broken''\<rparr>,
           \<lparr>q_id = ''q3'', q_text = ''masks''\<rparr>])] \<and>
   ex_item_error_es (mk_call ''ix'' (requests_of 10
       [\<lparr>q_id = ''q1'', q_text = ''covid''\<rparr>, \<lparr>q_id = ''q2'', q_text = ''broken''\<rparr>,
        \<lparr>q_id = ''q3'', q_text = ''masks''\<rparr>]))
     = Inr [Hits [\<lparr>hit_id = ''d1'', hit_score = 7\<rparr>], NoHits,
            Hits [\<lparr>hit_id = ''d1'', hit_score = 7\<rparr>]] \<and>
   es_responses (retrieve [\<lparr>q_id = ''q1'', q_text = ''covid''\<rparr>,
                           \<lparr>q_id = ''q2'', q_text = ''broken''\<rparr>,
                           \<lparr>q_id = ''q3'', q_text = ''masks''\<rparr>] ex_item_error_es ''ix'' 10 32)
     = [(''q1'', [(''d1'', 7)])] \<and>
   dict_get (es_responses (retrieve [\<lparr>q_id = ''q1'', q_text = ''covid''\<rparr>,
                                     \<lparr>q_id = ''q2'', q_text = ''broken''\<rparr>,
                                     \<lparr>q_id = ''q3'', q_text = ''masks''\<rparr>]
                             ex_item_error_es ''ix'' 10 32)) ''q3'' = None"
  by code_simp

subsection \<open>The size limit\<close>

lemma length_dict_setitem: "length (dict_setitem k v d) \<le> Suc (length d)"
  unfolding dict_setitem_def by (induction d) auto

lemma length_dict_update: "length (dict_update d other) \<le> length d + length other"
proof (induction other arbitrary: d)
  case Nil
  then show ?case by (simp add: dict_update_Nil)
next
  case (Cons p other)
  obtain k v where p: "p = (k, v)" by (cases p)
  show ?case
    unfolding p dict_update_Cons
    using Cons.IH [of "dict_setitem k v d"] length_dict_setitem [of k v d] by simp
qed

lemma length_dict_of_items: "length (dict_of_items items) \<le> length items"
  using length_dict_update [of "[]" items] by (simp add: dict_of_items_def)

lemma set_dict_setitem: "set (dict_setitem k v d) \<subseteq> insert (k, v) (set d)"
  unfolding dict_setitem_def by (induction d) auto

lemma set_dict_update: "set (dict_update d other) \<subseteq> set d \<union> set other"
proof (induction other arbitrary: d)
  case Nil
  then show ?case by (simp add: dict_update_Nil)
next
  case (Cons p other)
  obtain k v where p: "p = (k, v)" by (cases p)
  show ?case
    unfolding p dict_update_Cons
    using Cons.IH [of "dict_setitem k v d"] set_dict_setitem [of k v d] by auto
qed

lemma fill_batch_limit:
  assumes "\<forall>(q, scores) \<in> set bd. int (length scores) \<le> sz"
    and "\<forall>q hs. (q, Hits hs) \<in> set zs \<longrightarrow> int (length hs) \<le> sz"
  shows "\<forall>(q, scores) \<in> set (fst (fill_batch bd zs)). int (length scores) \<le> sz"
  using assms
proof (induction bd zs rule: fill_batch.induct)
  case (1 bd)
  then show ?case by simp
next
  case (2 bd qid hs rest)
  let ?d = "dict_of_items (map (\<lambda>h. (hit_id h, hit_score h)) hs)"
  have "int (length hs) \<le> sz"
    using 2(3) by simp
  moreover have "length ?d \<le> length hs"
    using length_dict_of_items [of "map (\<lambda>h. (hit_id h, hit_score h)) hs"] by simp
  ultimately have d: "int (length ?d) \<le> sz"
    by linarith
  have "\<forall>(q, scores) \<in> set (dict_setitem qid ?d bd). int (length scores) \<le> sz"
    using set_dict_setitem [of qid ?d bd] 2(2) d by auto
  moreover have "\<forall>q hs. (q, Hits hs) \<in> set rest \<longrightarrow> int (length hs) \<le> sz"
    using 2(3) by simp
  ultimately show ?case
    using 2(1) by simp
next
  case (3 bd qid rest)
  then show ?case by simp
qed

lemma zip_response_limit:
  assumes "list_all within_size (zip bs rs)" and "list_all (\<lambda>b. body_size b = sz) bs"
    and "length bs = length ids" and "(q, Hits hs) \<in> set (zip ids rs)"
  shows "int (length hs) \<le> sz"
proof -
  from assms(4) obtain i where i: "i < length ids" "i < length rs" "rs ! i = Hits hs"
    by (auto simp: in_set_zip)
  then have "(bs ! i, Hits hs) \<in> set (zip bs rs)"
    using assms(3) by (auto simp: in_set_zip)
  with assms(1) have "int (length hs) \<le> body_size (bs ! i)"
    by (auto simp: list_all_iff)
  moreover have "body_size (bs ! i) = sz"
    using assms(2,3) i(1) by (simp add: list_all_length)
  ultimately show ?thesis by simp
qed

lemma retrieve_batch_limit:
  assumes "honours_size es" and "list_all (\<lambda>b. body_size b = sz) (bodies reqs)"
    and "length (bodies reqs) = length ids"
  shows "\<forall>(q, scores) \<in> set (fst (retrieve_batch es ix ids reqs)). int (length scores) \<le> sz"
proof (cases "es (mk_call ix reqs)")
  case (Inl e)
  then show ?thesis by (simp add: retrieve_batch_Inl)
next
  case (Inr rs)
  have "list_all within_size (zip (bodies (call_searches (mk_call ix reqs))) rs)"
    using assms(1) [unfolded honours_size_def, rule_format, OF Inr] .
  then have "list_all within_size (zip (bodies reqs) rs)"
    by (simp add: mk_call_def)
  then have "\<forall>q hs. (q, Hits hs) \<in> set (zip ids rs) \<longrightarrow> int (length hs) \<le> sz"
    using zip_response_limit [OF _ assms(2,3)] by blast
  then have "\<forall>(q, scores) \<in> set (fst (fill_batch [] (zip ids rs))). int (length scores) \<le> sz"
    by (intro fill_batch_limit) simp_all
  then show ?thesis
    by (simp add: retrieve_batch_Inr(1) [where es = es, OF Inr])
qed

lemma within_limit_flush:
  assumes "honours_size es" and "within_limit sz st"
  shows "within_limit sz (flush es ix st)"
proof -
  from assms(2) have al: "length (bodies (requests st)) = length (qids st)"
    and rq: "list_all (\<lambda>b. body_size b = sz) (bodies (requests st))"
    and rs: "\<forall>(q, scores) \<in> set (es_responses st). int (length scores) \<le> sz"
    by (simp_all add: within_limit_def aligned_def list_all_iff)
  from retrieve_batch_limit [OF assms(1) rq al, of ix] rs
  have "\<forall>(q, scores) \<in> set (es_responses (flush es ix st)). int (length scores) \<le> sz"
    using set_dict_update [of "es_responses st" "fst (retrieve_batch es ix (qids st) (requests st))"]
    unfolding flush_es_responses by blast
  then show ?thesis
    by (simp add: within_limit_def aligned_flush flush_requests list_all_iff)
qed

lemma within_limit_enqueue: "within_limit sz st \<Longrightarrow> within_limit sz (enqueue sz st q)"
  by (simp add: within_limit_def aligned_enqueue enqueue_simps bodies_append
      generate_request_def)

lemma within_limit_step:
  "honours_size es \<Longrightarrow> within_limit sz st \<Longrightarrow> within_limit sz (retrieve_step es ix sz bs st q)"
  by (simp add: retrieve_step_def Let_def within_limit_flush within_limit_enqueue)

lemma within_limit_loop:
  "honours_size es \<Longrightarrow> within_limit sz st \<Longrightarrow> within_limit sz (retrieve_loop es ix sz bs st qs)"
  by (induction qs arbitrary: st) (simp_all add: within_limit_step)

lemma within_limit_retrieve:
  assumes "honours_size es"
  shows "within_limit sz (retrieve queries es ix sz bs)"
proof -
  have "within_limit sz retrieve_init"
    by (simp add: within_limit_def aligned_def retrieve_init_def)
  with assms have "within_limit sz (retrieve_loop es ix sz bs retrieve_init queries)"
    by (rule within_limit_loop)
  with assms show ?thesis
    by (simp add: retrieve_def leftovers_def within_limit_flush)
qed

text \<open>
  C4: when the search engine answers each search with at most as many hits as the
  \<^verbatim>\<open>size\<close> of its request asks for, every score map in the mapping that \<^verbatim>\<open>retrieve\<close>
  returns has at most \<^verbatim>\<open>size\<close> entries.
\<close>

theorem retrieve_at_most_size:
  assumes "honours_size es"
  shows "\<forall>(qid, scores) \<in> set (es_responses (retrieve queries es index_name sz batch_size)).
           int (length scores) \<le> sz"
  using within_limit_retrieve [OF assms, of sz queries index_name batch_size]
  by (simp add: within_limit_def list_all_iff)

theorem retrieve_at_most_size_witness:
  "honours_size (\<lambda>c. Inr (map (\<lambda>b. if body_size b < 0 then NoHits else Hits (take (nat (body_size b))
       [\<lparr>hit_id = ''d1'', hit_score = 3\<rparr>, \<lparr>hit_id = ''d2'', hit_score = 2\<rparr>,
        \<lparr>hit_id = ''d3'', hit_score = 1\<rparr>])) (bodies (call_searches c)))) \<and>
   (''q1'', [(''d1'', 3), (''d2'', 2)]) \<in> set (es_responses
      (retrieve [\<lparr>q_id = ''q1'', q_text = ''a''\<rparr>]
         (\<lambda>c. Inr (map (\<lambda>b. if body_size b < 0 then NoHits else Hits (take (nat (body_size b))
            [\<lparr>hit_id = ''d1'', hit_score = 3\<rparr>, \<lparr>hit_id = ''d2'', hit_score = 2\<rparr>,
             \<lparr>hit_id = ''d3'', hit_score = 1\<rparr>])) (bodies (call_searches c)))) ''ix'' 2 32)) \<and>
   int (length [(''d1'', 3::real), (''d2'', 2)]) \<le> 2"
proof -
  let ?es = "\<lambda>c. Inr (map (\<lambda>b. if body_size b < 0 then NoHits else Hits (take (nat (body_size b))
       [\<lparr>hit_id = ''d1'', hit_score = 3\<rparr>, \<lparr>hit_id = ''d2'', hit_score = 2\<rparr>,
        \<lparr>hit_id = ''d3'', hit_score = 1\<rparr>])) (bodies (call_searches c))) :: string + es_resp list"
  have h: "honours_size ?es"
    by (auto simp: honours_size_def list_all_iff zip_map2 zip_same_conv_map)
  have m: "(''q1'', [(''d1'', 3), (''d2'', 2)]) \<in> set (es_responses
      (retrieve [\<lparr>q_id = ''q1'', q_text = ''a''\<rparr>] ?es ''ix'' 2 32))"
    by (simp add: retrieve_def leftovers_def retrieve_step_def enqueue_def retrieve_init_def
        flush_def retrieve_batch_def mk_call_def generate_request_def dict_of_items_def
        dict_update_def dict_setitem_def)
  from retrieve_at_most_size [OF h, THEN bspec, OF m] h m show ?thesis
    by simp
qed

subsection \<open>The reranker\<close>

lemma dict_get_update_other:
  "k \<notin> fst ` set other \<Longrightarrow> dict_get (dict_update d other) k = dict_get d k"
proof (induction other arbitrary: d)
  case Nil
  then show ?case by (simp add: dict_update_Nil)
next
  case (Cons p other)
  obtain k' v' where p: "p = (k', v')" by (cases p)
  show ?case
    unfolding p dict_update_Cons using Cons.prems Cons.IH [of "dict_setitem k' v' d"]
    by (simp add: p dict_get_setitem)
qed

lemma dict_get_update_distinct:
  "distinct (map fst other) \<Longrightarrow> (k, v) \<in> set other \<Longrightarrow> dict_get (dict_update d other) k = Some v"
proof (induction other arbitrary: d)
  case Nil
  then show ?case by simp
next
  case (Cons p other)
  obtain k' v' where p: "p = (k', v')" by (cases p)
  show ?case
  proof (cases "(k, v) = (k', v')")
    case True
    with Cons.prems(1) have "k \<notin> fst ` set other"
      by (simp add: p)
    then show ?thesis
      unfolding p dict_update_Cons using True
      by (simp add: dict_get_update_other dict_get_setitem)
  next
    case False
    with Cons.prems have "(k, v) \<in> set other" and "distinct (map fst other)"
      by (auto simp: p)
    then show ?thesis
      unfolding p dict_update_Cons using Cons.IH by simp
  qed
qed

lemma dict_get_of_items_SomeD: "dict_get (dict_of_items items) k = Some v \<Longrightarrow> (k, v) \<in> set items"
proof -
  assume "dict_get (dict_of_items items) k = Some v"
  then have "(k, v) \<in> set (dict_of_items items)"
    by (simp add: dict_get_def map_of_SomeD)
  then show ?thesis
    using set_dict_update [of "[]" items] by (auto simp: dict_of_items_def)
qed

lemma dict_keys_of_items: "set (dict_keys (dict_of_items items)) = set (dict_keys items)"
  by (simp add: dict_of_items_def dict_keys_update dict_keys_Nil)

lemma corpus_dict_SomeD:
  assumes "dict_get (corpus_dict_of corpus) doc_id = Some doc_text"
  shows "\<exists>doc \<in> set corpus. row_id doc = doc_id \<and> doc_text = row_title doc @ '' '' @ row_text doc"
  using dict_get_of_items_SomeD [OF assms [unfolded corpus_dict_of_def]] by auto

lemma queries_dict_SomeD:
  assumes "dict_get (queries_dict_of queries) qid = Some query_text"
  shows "\<exists>q \<in> set queries. q_id q = qid \<and> query_text = q_text q"
  using dict_get_of_items_SomeD [OF assms [unfolded queries_dict_of_def]] by auto

lemma lookup_all_Inr:
  "lookup_all corpus_dict doc_ids = Inr doc_texts \<Longrightarrow>
     doc_texts = map (\<lambda>doc_id. the (dict_get corpus_dict doc_id)) doc_ids \<and>
     (\<forall>doc_id \<in> set doc_ids. dict_get corpus_dict doc_id \<noteq> None)"
  by (induction doc_ids arbitrary: doc_texts) (auto split: option.splits sum.splits)

text \<open>What a successful run of the loop body has done.\<close>

lemma rerank_query_Inr:
  assumes "rerank_query predict queries_dict corpus_dict qid bm25_res = Inr (res, ps)"
  obtains query_text where "dict_get queries_dict qid = Some query_text"
    and "bm25_res = [] \<longrightarrow> res = [] \<and> ps = []"
    and "bm25_res \<noteq> [] \<longrightarrow>
           lookup_all corpus_dict (map fst bm25_res)
             = Inr (map (\<lambda>doc_id. the (dict_get corpus_dict doc_id)) (map fst bm25_res)) \<and>
           (\<forall>doc_id \<in> fst ` set bm25_res. dict_get corpus_dict doc_id \<noteq> None) \<and>
           ps = [map (\<lambda>doc_id. (query_text, the (dict_get corpus_dict doc_id))) (map fst bm25_res)] \<and>
           res = dict_of_items (zip (map fst bm25_res) (predict (hd ps)))"
proof -
  from assms obtain query_text where q: "dict_get queries_dict qid = Some query_text"
    by (auto simp: rerank_query_def split: option.splits)
  show thesis
  proof (cases "bm25_res = []")
    case True
    with assms q have "res = [] \<and> ps = []"
      by (simp add: rerank_query_def)
    with True q show thesis
      by (intro that [of query_text]) simp_all
  next
    case False
    with assms q obtain doc_texts where l: "lookup_all corpus_dict (map fst bm25_res) = Inr doc_texts"
      and r: "res = dict_of_items (zip (map fst bm25_res)
                 (predict (map (\<lambda>doc_text. (query_text, doc_text)) doc_texts)))"
      and p: "ps = [map (\<lambda>doc_text. (query_text, doc_text)) doc_texts]"
      by (auto simp: rerank_query_def Let_def split: sum.splits)
    from lookup_all_Inr [OF l]
    have t: "doc_texts = map (\<lambda>doc_id. the (dict_get corpus_dict doc_id)) (map fst bm25_res)"
      and n: "\<forall>doc_id \<in> fst ` set bm25_res. dict_get corpus_dict doc_id \<noteq> None"
      by simp_all
    show thesis
      using False q l r p n unfolding t
      by (intro that [of query_text]) (simp_all add: comp_def)
  qed
qed

lemma rerank_query_keys:
  assumes "one_score_per_pair predict"
    and "rerank_query predict queries_dict corpus_dict qid bm25_res = Inr (res, ps)"
  shows "set (dict_keys res) = set (dict_keys bm25_res)" and "bm25_res = [] \<Longrightarrow> res = []"
proof -
  from assms(2) obtain query_text where
    e: "bm25_res = [] \<longrightarrow> res = [] \<and> ps = []"
    and n: "bm25_res \<noteq> [] \<longrightarrow>
           ps = [map (\<lambda>doc_id. (query_text, the (dict_get corpus_dict doc_id))) (map fst bm25_res)] \<and>
           res = dict_of_items (zip (map fst bm25_res) (predict (hd ps)))"
    by (rule rerank_query_Inr) blast
  show "bm25_res = [] \<Longrightarrow> res = []"
    using e by simp
  show "set (dict_keys res) = set (dict_keys bm25_res)"
  proof (cases "bm25_res = []")
    case True
    with e show ?thesis by simp
  next
    case False
    with n have ps: "length (hd ps) = length bm25_res"
      and res: "res = dict_of_items (zip (map fst bm25_res) (predict (hd ps)))"
      by simp_all
    from assms(1) ps have "length (predict (hd ps)) = length (map fst bm25_res)"
      by (simp add: one_score_per_pair_def)
    then have "dict_keys (zip (map fst bm25_res) (predict (hd ps))) = dict_keys bm25_res"
      unfolding dict_keys_def by (rule map_fst_zip [OF sym])
    then show ?thesis
      by (simp add: res dict_keys_of_items)
  qed
qed


lemma rerank_loop_Cons_Inr:
  assumes "rerank_loop predict qd cd st ((qid, bm25_res) # rest) = Inr st'"
  obtains res ps where "rerank_query predict qd cd qid bm25_res = Inr (res, ps)"
    and "rerank_loop predict qd cd
           \<lparr>results_after_reranking = dict_setitem qid res (results_after_reranking st),
            predict_calls = predict_calls st @ ps\<rparr> rest = Inr st'"
  using assms by (auto split: sum.splits)

lemma rerank_loop_results:
  assumes "one_score_per_pair predict" and "distinct (dict_keys rest)"
    and "rerank_loop predict qd cd st rest = Inr st'"
  shows "set (dict_keys (results_after_reranking st'))
           = set (dict_keys (results_after_reranking st)) \<union> set (dict_keys rest) \<and>
         (\<forall>(qid, bm25_res) \<in> set rest.
            \<exists>res. dict_get (results_after_reranking st') qid = Some res \<and>
                  set (dict_keys res) = set (dict_keys bm25_res) \<and>
                  (bm25_res = [] \<longrightarrow> res = [])) \<and>
         (\<forall>qid. qid \<notin> set (dict_keys rest) \<longrightarrow>
            dict_get (results_after_reranking st') qid = dict_get (results_after_reranking st) qid)"
  using assms(2,3)
proof (induction rest arbitrary: st)
  case Nil
  then show ?case by (simp add: dict_keys_Nil)
next
  case (Cons p rest)
  obtain qid bm25_res where p: "p = (qid, bm25_res)" by (cases p)
  from Cons.prems(2) [unfolded p] obtain res ps
    where q: "rerank_query predict qd cd qid bm25_res = Inr (res, ps)"
      and l: "rerank_loop predict qd cd
           \<lparr>results_after_reranking = dict_setitem qid res (results_after_reranking st),
            predict_calls = predict_calls st @ ps\<rparr> rest = Inr st'"
    by (rule rerank_loop_Cons_Inr)
  let ?st = "\<lparr>results_after_reranking = dict_setitem qid res (results_after_reranking st),
            predict_calls = predict_calls st @ ps\<rparr>"
  from Cons.prems(1) have d: "distinct (dict_keys rest)" and nq: "qid \<notin> set (dict_keys rest)"
    by (simp_all add: p dict_keys_Cons)
  note ih = Cons.IH [OF d l]
  note k = rerank_query_keys [OF assms(1) q]
  have keys: "set (dict_keys (results_after_reranking st'))
           = set (dict_keys (results_after_reranking st)) \<union> set (dict_keys (p # rest))"
    using ih by (auto simp: dict_keys_setitem p dict_keys_Cons)
  have "dict_get (results_after_reranking st') qid = Some res"
    using ih nq by (simp add: dict_get_setitem)
  with k have head: "\<exists>res. dict_get (results_after_reranking st') qid = Some res \<and>
                  set (dict_keys res) = set (dict_keys bm25_res) \<and>
                  (bm25_res = [] \<longrightarrow> res = [])"
    by blast
  have other: "dict_get (results_after_reranking st') qid'
                 = dict_get (results_after_reranking st) qid'"
    if "qid' \<notin> set (dict_keys (p # rest))" for qid'
    using ih that by (simp add: dict_get_setitem p dict_keys_Cons)
  from keys head other ih show ?case
    by (simp add: p)
qed

lemma rerank_loop_calls_mono:
  "rerank_loop predict qd cd st rest = Inr st' \<Longrightarrow> set (predict_calls st) \<subseteq> set (predict_calls st')"
proof (induction rest arbitrary: st)
  case Nil
  then show ?case by simp
next
  case (Cons p rest)
  obtain qid bm25_res where p: "p = (qid, bm25_res)" by (cases p)
  from Cons.prems [unfolded p] obtain res ps
    where l: "rerank_loop predict qd cd
           \<lparr>results_after_reranking = dict_setitem qid res (results_after_reranking st),
            predict_calls = predict_calls st @ ps\<rparr> rest = Inr st'"
    by (rule rerank_loop_Cons_Inr)
  from Cons.IH [OF l] show ?case by simp
qed

lemma rerank_query_pairs:
  assumes "rerank_query predict (queries_dict_of queries) (corpus_dict_of corpus) qid bm25_res
             = Inr (res, ps)"
  shows "\<forall>pairs \<in> set ps. \<forall>(query_text, doc_text) \<in> set pairs.
           \<exists>doc \<in> set corpus. doc_text = row_title doc @ '' '' @ row_text doc"
    and "\<forall>doc_id \<in> set (dict_keys bm25_res).
           \<exists>q \<in> set queries. \<exists>doc \<in> set corpus. q_id q = qid \<and> row_id doc = doc_id \<and>
             (\<exists>pairs \<in> set ps. (q_text q, row_title doc @ '' '' @ row_text doc) \<in> set pairs)"
proof -
  let ?cd = "corpus_dict_of corpus"
  from assms obtain query_text where
    qt: "dict_get (queries_dict_of queries) qid = Some query_text"
    and e: "bm25_res = [] \<longrightarrow> res = [] \<and> ps = []"
    and n: "bm25_res \<noteq> [] \<longrightarrow>
           (\<forall>doc_id \<in> fst ` set bm25_res. dict_get ?cd doc_id \<noteq> None) \<and>
           ps = [map (\<lambda>doc_id. (query_text, the (dict_get ?cd doc_id))) (map fst bm25_res)]"
    by (rule rerank_query_Inr) blast
  from queries_dict_SomeD [OF qt] obtain q where q: "q \<in> set queries" "q_id q = qid"
    "query_text = q_text q"
    by blast
  have found: "\<exists>doc \<in> set corpus. row_id doc = doc_id \<and>
                 the (dict_get ?cd doc_id) = row_title doc @ '' '' @ row_text doc"
    if "bm25_res \<noteq> []" and "doc_id \<in> fst ` set bm25_res" for doc_id
  proof -
    from n that obtain doc_text where "dict_get ?cd doc_id = Some doc_text"
      by blast
    from corpus_dict_SomeD [OF this] this show ?thesis by auto
  qed
  show "\<forall>pairs \<in> set ps. \<forall>(query_text, doc_text) \<in> set pairs.
           \<exists>doc \<in> set corpus. doc_text = row_title doc @ '' '' @ row_text doc"
  proof (cases "bm25_res = []")
    case True
    with e show ?thesis by simp
  next
    case False
    with n found show ?thesis by fastforce
  qed
  show "\<forall>doc_id \<in> set (dict_keys bm25_res).
           \<exists>q \<in> set queries. \<exists>doc \<in> set corpus. q_id q = qid \<and> row_id doc = doc_id \<and>
             (\<exists>pairs \<in> set ps. (q_text q, row_title doc @ '' '' @ row_text doc) \<in> set pairs)"
  proof
    fix doc_id
    assume d: "doc_id \<in> set (dict_keys bm25_res)"
    then have ne: "bm25_res \<noteq> []" and m: "doc_id \<in> fst ` set bm25_res"
      by (auto simp: dict_keys_def)
    from found [OF ne m] obtain doc where doc: "doc \<in> set corpus" "row_id doc = doc_id"
      "the (dict_get ?cd doc_id) = row_title doc @ '' '' @ row_text doc"
      by blast
    from n ne have "ps = [map (\<lambda>doc_id. (query_text, the (dict_get ?cd doc_id))) (map fst bm25_res)]"
      by simp
    with m doc(3) q(3)
    have "\<exists>pairs \<in> set ps. (q_text q, row_title doc @ '' '' @ row_text doc) \<in> set pairs"
      by force
    with q doc show "\<exists>q \<in> set queries. \<exists>doc \<in> set corpus. q_id q = qid \<and> row_id doc = doc_id \<and>
             (\<exists>pairs \<in> set ps. (q_text q, row_title doc @ '' '' @ row_text doc) \<in> set pairs)"
      by blast
  qed
qed

lemma rerank_loop_pairs:
  assumes "rerank_loop predict (queries_dict_of queries) (corpus_dict_of corpus) st rest = Inr st'"
    and "\<forall>pairs \<in> set (predict_calls st). \<forall>(query_text, doc_text) \<in> set pairs.
           \<exists>doc \<in> set corpus. doc_text = row_title doc @ '' '' @ row_text doc"
  shows "(\<forall>pairs \<in> set (predict_calls st'). \<forall>(query_text, doc_text) \<in> set pairs.
           \<exists>doc \<in> set corpus. doc_text = row_title doc @ '' '' @ row_text doc) \<and>
         (\<forall>(qid, bm25_res) \<in> set rest. \<forall>doc_id \<in> set (dict_keys bm25_res).
           \<exists>q \<in> set queries. \<exists>doc \<in> set corpus. q_id q = qid \<and> row_id doc = doc_id \<and>
             (\<exists>pairs \<in> set (predict_calls st').
                (q_text q, row_title doc @ '' '' @ row_text doc) \<in> set pairs))"
  using assms
proof (induction rest arbitrary: st)
  case Nil
  then show ?case by simp
next
  case (Cons p rest)
  obtain qid bm25_res where p: "p = (qid, bm25_res)" by (cases p)
  from Cons.prems(1) [unfolded p] obtain res ps
    where q: "rerank_query predict (queries_dict_of queries) (corpus_dict_of corpus) qid bm25_res
                = Inr (res, ps)"
      and l: "rerank_loop predict (queries_dict_of queries) (corpus_dict_of corpus)
           \<lparr>results_after_reranking = dict_setitem qid res (results_after_reranking st),
            predict_calls = predict_calls st @ ps\<rparr> rest = Inr st'"
    by (rule rerank_loop_Cons_Inr)
  let ?st = "\<lparr>results_after_reranking = dict_setitem qid res (results_after_reranking st),
            predict_calls = predict_calls st @ ps\<rparr>"
  note rq = rerank_query_pairs [OF q]
  have "\<forall>pairs \<in> set (predict_calls ?st). \<forall>(query_text, doc_text) \<in> set pairs.
           \<exists>doc \<in> set corpus. doc_text = row_title doc @ '' '' @ row_text doc"
    using Cons.prems(2) rq(1) by auto
  note ih = Cons.IH [OF l this]
  have "set ps \<subseteq> set (predict_calls st')"
    using rerank_loop_calls_mono [OF l] by simp
  with rq(2) have "\<forall>doc_id \<in> set (dict_keys bm25_res).
           \<exists>q \<in> set queries. \<exists>doc \<in> set corpus. q_id q = qid \<and> row_id doc = doc_id \<and>
             (\<exists>pairs \<in> set (predict_calls st').
                (q_text q, row_title doc @ '' '' @ row_text doc) \<in> set pairs)"
    by (meson subsetD)
  with ih show ?case
    by (simp add: p)
qed

lemma rerank_ex:
  "rerank ex_predict ex_queries ex_corpus ex_bm25 =
     Inr \<lparr>results_after_reranking = [(''q1'', [(''d1'', 4), (''d2'', 2)]), (''q2'', [])],
          predict_calls = [[(''covid'', ''A bc''), (''covid'', '' x'')]]\<rparr>"
  by code_simp

lemma one_score_per_pair_ex: "one_score_per_pair ex_predict"
  by (simp add: one_score_per_pair_def ex_predict_def)

text \<open>
  C1: when the model returns one score for each pair and the cell runs to its end, the
  reranked result has the same query ids as the first-stage result, and for every query
  its score map has exactly the document ids of the first-stage score map of that query;
  a query without candidates gets the empty score map.
\<close>

theorem rerank_same_document_ids:
  assumes "one_score_per_pair predict" and "distinct (dict_keys bm25_responses)"
    and "rerank predict queries corpus bm25_responses = Inr st"
  shows "set (dict_keys (results_after_reranking st)) = set (dict_keys bm25_responses) \<and>
         (\<forall>(qid, bm25_res) \<in> set bm25_responses.
            \<exists>res. dict_get (results_after_reranking st) qid = Some res \<and>
                  set (dict_keys res) = set (dict_keys bm25_res) \<and>
                  (bm25_res = [] \<longrightarrow> res = []))"
  using rerank_loop_results [OF assms(1,2) assms(3) [unfolded rerank_def]]
  by (simp add: dict_keys_Nil)

text \<open>
  C10: when the reranking cell runs to its end, every pair handed to the model holds, as
  its document text, the title of a corpus row, one space and the text of that row; and
  for every candidate document of every query such a pair, made of the text of that query
  and of a corpus row with the id of the candidate, is among those handed to the model.
\<close>

theorem reranker_scores_title_space_text:
  assumes "rerank predict queries corpus bm25_responses = Inr st"
  shows "(\<forall>pairs \<in> set (predict_calls st). \<forall>(query_text, doc_text) \<in> set pairs.
           \<exists>doc \<in> set corpus. doc_text = row_title doc @ '' '' @ row_text doc) \<and>
         (\<forall>(qid, bm25_res) \<in> set bm25_responses. \<forall>doc_id \<in> set (dict_keys bm25_res).
           \<exists>q \<in> set queries. \<exists>doc \<in> set corpus. q_id q = qid \<and> row_id doc = doc_id \<and>
             (\<exists>pairs \<in> set (predict_calls st).
                (q_text q, row_title doc @ '' '' @ row_text doc) \<in> set pairs))"
  using rerank_loop_pairs [OF assms [unfolded rerank_def]] by simp



theorem rerank_same_document_ids_witness:
  "one_score_per_pair ex_predict \<and> distinct (dict_keys ex_bm25) \<and>
   (\<exists>st. rerank ex_predict ex_queries ex_corpus ex_bm25 = Inr st \<and>
      set (dict_keys (results_after_reranking st)) = {''q1'', ''q2''} \<and>
      (\<exists>res. dict_get (results_after_reranking st) ''q1'' = Some res \<and>
             set (dict_keys res) = {''d1'', ''d2''}) \<and>
      (\<exists>res. dict_get (results_after_reranking st) ''q2'' = Some res \<and> res = []))"
proof -
  let ?st = "\<lparr>results_after_reranking = [(''q1'', [(''d1'', 4), (''d2'', 2)]), (''q2'', [])],
              predict_calls = [[(''covid'', ''A bc''), (''covid'', '' x'')]]\<rparr>"
  have d: "distinct (dict_keys ex_bm25)"
    by (simp add: ex_bm25_def dict_keys_def)
  note t = rerank_same_document_ids [OF one_score_per_pair_ex d rerank_ex]
  from t have k: "set (dict_keys (results_after_reranking ?st)) = set (dict_keys ex_bm25)"
    by (rule conjunct1)
  from t have a: "\<forall>(qid, bm25_res) \<in> set ex_bm25.
            \<exists>res. dict_get (results_after_reranking ?st) qid = Some res \<and>
                  set (dict_keys res) = set (dict_keys bm25_res) \<and>
                  (bm25_res = [] \<longrightarrow> res = [])"
    by (rule conjunct2)
  have m1: "(''q1'', [(''d1'', 7), (''d2'', 5)]) \<in> set ex_bm25"
    and m2: "(''q2'', []) \<in> set ex_bm25"
    by (simp_all add: ex_bm25_def)
  from bspec [OF a m1]
  have q1: "\<exists>res. dict_get (results_after_reranking ?st) ''q1'' = Some res \<and>
             set (dict_keys res) = {''d1'', ''d2''}"
    by (simp add: dict_keys_Cons dict_keys_Nil)
  from bspec [OF a m2]
  have q2: "\<exists>res. dict_get (results_after_reranking ?st) ''q2'' = Some res \<and> res = []"
    by simp
  from k have k': "set (dict_keys (results_after_reranking ?st)) = {''q1'', ''q2''}"
    by (simp add: ex_bm25_def dict_keys_Cons dict_keys_Nil)
  from one_score_per_pair_ex d rerank_ex k' q1 q2 show ?thesis
    by blast
qed


theorem reranker_scores_title_space_text_witness:
  "(\<exists>st. rerank ex_predict ex_queries ex_corpus ex_bm25 = Inr st \<and>
      [(''covid'', ''A bc''), (''covid'', '' x'')] \<in> set (predict_calls st)) \<and>
   (\<exists>doc. doc \<in> set ex_corpus \<and> ''A bc'' = row_title doc @ '' '' @ row_text doc) \<and>
   (\<exists>doc. doc \<in> set ex_corpus \<and> '' x'' = row_title doc @ '' '' @ row_text doc)"
proof -
  let ?st = "\<lparr>results_after_reranking = [(''q1'', [(''d1'', 4), (''d2'', 2)]), (''q2'', [])],
              predict_calls = [[(''covid'', ''A bc''), (''covid'', '' x'')]]\<rparr>"
  have m: "[(''covid'', ''A bc''), (''covid'', '' x'')] \<in> set (predict_calls ?st)"
    by simp
  from reranker_scores_title_space_text [OF rerank_ex]
  have "\<forall>pairs \<in> set (predict_calls ?st). \<forall>(query_text, doc_text) \<in> set pairs.
          \<exists>doc \<in> set ex_corpus. doc_text = row_title doc @ '' '' @ row_text doc"
    by (rule conjunct1)
  from bspec [OF this m]
  have a: "\<forall>(query_text, doc_text) \<in> set [(''covid'', ''A bc''), (''covid'', '' x'')].
          \<exists>doc \<in> set ex_corpus. doc_text = row_title doc @ '' '' @ row_text doc" .
  have "(''covid'', ''A bc'') \<in> set [(''covid'', ''A bc''), (''covid'', '' x'')]"
    by simp
  from bspec [OF a this]
  have d1: "\<exists>doc. doc \<in> set ex_corpus \<and> ''A bc'' = row_title doc @ '' '' @ row_text doc"
    unfolding Bex_def by simp
  have "(''covid'', '' x'') \<in> set [(''covid'', ''A bc''), (''covid'', '' x'')]"
    by simp
  from bspec [OF a this]
  have d2: "\<exists>doc. doc \<in> set ex_corpus \<and> '' x'' = row_title doc @ '' '' @ row_text doc"
    unfolding Bex_def by simp
  from rerank_ex m d1 d2 show ?thesis
    by blast
qed

subsection \<open>Query ids and judgments\<close>

lemma rerank_loop_keys:
  "rerank_loop predict qd cd st rest = Inr st' \<Longrightarrow>
     set (dict_keys (results_after_reranking st'))
       = set (dict_keys (results_after_reranking st)) \<union> set (dict_keys rest)"
proof (induction rest arbitrary: st)
  case Nil
  then show ?case by (simp add: dict_keys_Nil)
next
  case (Cons p rest)
  obtain qid bm25_res where p: "p = (qid, bm25_res)" by (cases p)
  from Cons.prems [unfolded p] obtain res ps
    where l: "rerank_loop predict qd cd
           \<lparr>results_after_reranking = dict_setitem qid res (results_after_reranking st),
            predict_calls = predict_calls st @ ps\<rparr> rest = Inr st'"
    by (rule rerank_loop_Cons_Inr)
  from Cons.IH [OF l] show ?case
    by (auto simp: dict_keys_setitem p dict_keys_Cons)
qed

lemma rerank_keys:
  "rerank predict queries corpus bm25_responses = Inr st \<Longrightarrow>
     set (dict_keys (results_after_reranking st)) = set (dict_keys bm25_responses)"
  using rerank_loop_keys [of predict "queries_dict_of queries" "corpus_dict_of corpus"
      "\<lparr>results_after_reranking = [], predict_calls = []\<rparr>" bm25_responses st]
  by (simp add: rerank_def dict_keys_Nil)

lemma download_queries_judged:
  assumes "download_queries_and_qrels h dataset_name = (queries, qrels)"
  shows "q_id ` set queries \<subseteq> set (dict_keys qrels)"
  using assms by (auto simp: download_queries_and_qrels_def Let_def)

text \<open>
  C7: with the queries and the judgments that \<^verbatim>\<open>download_queries_and_qrels\<close> returns,
  every key of the first-stage result of \<^verbatim>\<open>retrieve\<close> on these queries is a key of the
  judgments, and so is every key of the reranked result, whatever the search engine and
  the model answer.
\<close>

theorem ranking_keys_have_judgments:
  assumes "download_queries_and_qrels h dataset_name = (queries, qrels)"
  shows "(\<forall>qid \<in> set (dict_keys (es_responses (retrieve queries es index_name sz batch_size))).
            qid \<in> set (dict_keys qrels)) \<and>
         (\<forall>st. rerank predict queries corpus
                  (es_responses (retrieve queries es index_name sz batch_size)) = Inr st \<longrightarrow>
            (\<forall>qid \<in> set (dict_keys (results_after_reranking st)). qid \<in> set (dict_keys qrels)))"
proof -
  let ?bm25 = "es_responses (retrieve queries es index_name sz batch_size)"
  have "set (dict_keys ?bm25) \<subseteq> q_id ` set queries"
    by (rule retrieve_keys_subset)
  also have "\<dots> \<subseteq> set (dict_keys qrels)"
    using assms by (rule download_queries_judged)
  finally have first: "set (dict_keys ?bm25) \<subseteq> set (dict_keys qrels)" .
  have "set (dict_keys (results_after_reranking st)) \<subseteq> set (dict_keys qrels)"
    if "rerank predict queries corpus ?bm25 = Inr st" for st
    using rerank_keys [OF that] first by simp
  with first show ?thesis
    by blast
qed

lemma download_ex:
  "download_queries_and_qrels ex_hub ''trec-covid''
     = ([\<lparr>q_id = ''q1'', q_text = ''covid''\<rparr>], [(''q1'', [(''d1'', 1)])])"
  by code_simp

lemma retrieve_ex:
  "es_responses (retrieve [\<lparr>q_id = ''q1'', q_text = ''covid''\<rparr>] ex_es ''ix'' 100 32)
     = [(''q1'', [(''d1'', 7), (''d2'', 5)])]"
  by code_simp

lemma rerank_ex_first:
  "rerank ex_predict [\<lparr>q_id = ''q1'', q_text = ''covid''\<rparr>] ex_corpus
      [(''q1'', [(''d1'', 7), (''d2'', 5)])]
     = Inr \<lparr>results_after_reranking = [(''q1'', [(''d1'', 4), (''d2'', 2)])],
            predict_calls = [[(''covid'', ''A bc''), (''covid'', '' x'')]]\<rparr>"
  by code_simp

theorem ranking_keys_have_judgments_witness:
  "download_queries_and_qrels ex_hub ''trec-covid''
     = ([\<lparr>q_id = ''q1'', q_text = ''covid''\<rparr>], [(''q1'', [(''d1'', 1)])]) \<and>
   ''q1'' \<in> set (dict_keys (es_responses
              (retrieve [\<lparr>q_id = ''q1'', q_text = ''covid''\<rparr>] ex_es ''ix'' 100 32))) \<and>
   (\<exists>st. rerank ex_predict [\<lparr>q_id = ''q1'', q_text = ''covid''\<rparr>] ex_corpus
            (es_responses (retrieve [\<lparr>q_id = ''q1'', q_text = ''covid''\<rparr>] ex_es ''ix'' 100 32))
            = Inr st \<and>
         ''q1'' \<in> set (dict_keys (results_after_reranking st))) \<and>
   ''q1'' \<in> set (dict_keys [(''q1'', [(''d1'', 1::int)])])"
proof -
  let ?bm25 = "es_responses (retrieve [\<lparr>q_id = ''q1'', q_text = ''covid''\<rparr>] ex_es ''ix'' 100 32)"
  let ?st = "\<lparr>results_after_reranking = [(''q1'', [(''d1'', 4), (''d2'', 2)])],
              predict_calls = [[(''covid'', ''A bc''), (''covid'', '' x'')]]\<rparr>"
  have m: "''q1'' \<in> set (dict_keys ?bm25)"
    by (simp add: retrieve_ex dict_keys_Cons dict_keys_Nil)
  have r: "rerank ex_predict [\<lparr>q_id = ''q1'', q_text = ''covid''\<rparr>] ex_corpus ?bm25 = Inr ?st"
    by (simp only: retrieve_ex rerank_ex_first)
  have n: "''q1'' \<in> set (dict_keys (results_after_reranking ?st))"
    by (simp add: dict_keys_Cons dict_keys_Nil)
  note t = ranking_keys_have_judgments [OF download_ex, of ex_es "''ix''" 100 32 ex_predict ex_corpus]
  from t have "\<forall>qid \<in> set (dict_keys ?bm25). qid \<in> set (dict_keys [(''q1'', [(''d1'', 1::int)])])"
    by (rule conjunct1)
  from bspec [OF this m] have j: "''q1'' \<in> set (dict_keys [(''q1'', [(''d1'', 1::int)])])" .
  from download_ex m r n j show ?thesis
    by blast
qed

subsection \<open>The reported mean\<close>

lemma stored_scores_append:
  "stored_scores (append_score m s acc) metric =
     (if metric = m then stored_scores acc m @ [s] else stored_scores acc metric)"
  by (simp add: stored_scores_def append_score_def dict_get_setitem)

lemma no_empty_list_append: "no_empty_list acc \<Longrightarrow> no_empty_list (append_score m s acc)"
  by (simp add: no_empty_list_def append_score_def dict_get_setitem)

lemma fold_vals:
  "stored_scores (fold (\<lambda>(m, s). append_score m s) vals acc) metric
     = stored_scores acc metric @ map snd (filter (\<lambda>(m, s). m = metric) vals) \<and>
   (no_empty_list acc \<longrightarrow> no_empty_list (fold (\<lambda>(m, s). append_score m s) vals acc))"
proof (induction vals arbitrary: acc)
  case Nil
  then show ?case by simp
next
  case (Cons p vals)
  obtain m s where p: "p = (m, s)" by (cases p)
  show ?case
    using Cons.IH [of "append_score m s acc"]
    by (simp add: p stored_scores_append no_empty_list_append)
qed

lemma fold_queries:
  "stored_scores
     (fold (\<lambda>(qid, vals) eval_scores. fold (\<lambda>(m, s). append_score m s) vals eval_scores) e acc)
     metric
     = stored_scores acc metric @ scores_of metric e \<and>
   (no_empty_list acc \<longrightarrow>
      no_empty_list
        (fold (\<lambda>(qid, vals) eval_scores. fold (\<lambda>(m, s). append_score m s) vals eval_scores) e acc))"
proof (induction e arbitrary: acc)
  case Nil
  then show ?case by (simp add: scores_of_def)
next
  case (Cons p e)
  obtain qid vals where p: "p = (qid, vals)" by (cases p)
  show ?case
    using Cons.IH [of "fold (\<lambda>(m, s). append_score m s) vals acc"] fold_vals [of vals acc metric]
    by (simp add: p scores_of_def)
qed

lemma aggregate_lookup:
  fixes e :: "(string, (string, 's) dict) dict"
  shows "dict_get (aggregate e) metric
     = (if scores_of metric e = [] then None else Some (scores_of metric e))"
proof -
  have "no_empty_list ([] :: (string, 's list) dict)"
    by (simp add: no_empty_list_def dict_get_def)
  with fold_queries [of e "[] :: (string, 's list) dict" metric]
  have s: "stored_scores (aggregate e) metric = scores_of metric e"
    and n: "no_empty_list (aggregate e)"
    by (simp_all add: aggregate_def stored_scores_def dict_get_def)
  show ?thesis
  proof (cases "dict_get (aggregate e) metric")
    case None
    with s show ?thesis by (simp add: stored_scores_def)
  next
    case (Some l)
    with n have "l \<noteq> []" by (auto simp: no_empty_list_def)
    with s Some show ?thesis by (simp add: stored_scores_def)
  qed
qed

lemma report_lookup:
  "dict_get (report np_mean d) metric = map_option np_mean (dict_get d metric)"
  unfolding report_def dict_get_def by (induction d) auto

lemma scores_of_mset:
  fixes e :: "(string, (string, 's) dict) dict"
  assumes "mset e' = mset e"
  shows "mset (scores_of metric e') = mset (scores_of metric e)"
proof -
  let ?f = "\<lambda>(qid, vals). map snd (filter (\<lambda>(m, s). m = metric) vals)"
  have "mset (concat (map ?f xs)) = sum_mset (image_mset (mset \<circ> ?f) (mset xs))"
    for xs :: "(string, (string, 's) dict) dict"
    by (induction xs) simp_all
  with assms show ?thesis
    by (simp add: scores_of_def)
qed

text \<open>
  C5, as amended: the value reported for a metric is \<^verbatim>\<open>np.mean\<close> of the list of the scores
  of that metric, one for each query and in the order of the queries (absent when no
  query has a score for it). A permutation of the queries permutes this list: the scores
  that are averaged are the same, each as often, and so is their exact arithmetic mean,
  the sum divided by the number.
\<close>

theorem reported_mean_of_scores:
  fixes eval_per_query :: "(string, (string, 's :: field) dict) dict"
  shows "dict_get (report np_mean (aggregate eval_per_query)) metric
           = (if scores_of metric eval_per_query = [] then None
              else Some (np_mean (scores_of metric eval_per_query))) \<and>
         (\<forall>permuted. mset permuted = mset eval_per_query \<longrightarrow>
            mset (scores_of metric permuted) = mset (scores_of metric eval_per_query) \<and>
            sum_list (scores_of metric permuted) / of_nat (length (scores_of metric permuted))
              = sum_list (scores_of metric eval_per_query)
                  / of_nat (length (scores_of metric eval_per_query)))"
proof -
  have reported: "dict_get (report np_mean (aggregate eval_per_query)) metric
           = (if scores_of metric eval_per_query = [] then None
              else Some (np_mean (scores_of metric eval_per_query)))"
    by (simp add: report_lookup aggregate_lookup)
  have "mset (scores_of metric permuted) = mset (scores_of metric eval_per_query) \<and>
        sum_list (scores_of metric permuted) / of_nat (length (scores_of metric permuted))
          = sum_list (scores_of metric eval_per_query)
              / of_nat (length (scores_of metric eval_per_query))"
    if "mset permuted = mset eval_per_query" for permuted
  proof -
    from that have m: "mset (scores_of metric permuted) = mset (scores_of metric eval_per_query)"
      by (rule scores_of_mset)
    then have "sum_list (scores_of metric permuted) = sum_list (scores_of metric eval_per_query)"
      by (metis sum_mset_sum_list)
    moreover from m
    have "length (scores_of metric permuted) = length (scores_of metric eval_per_query)"
      by (metis size_mset)
    ultimately show ?thesis
      using m by simp
  qed
  with reported show ?thesis
    by blast
qed

theorem reported_mean_of_scores_witness:
  "mset (rev ex_eval_per_query) = mset ex_eval_per_query \<and>
   dict_get (report double_mean (aggregate ex_eval_per_query)) ''ndcg_cut_10''
     = Some (double_mean [2841455003081375 / 2 ^ 52, 7758379145826163 / 2 ^ 54,
                          2841455003081375 / 2 ^ 53]) \<and>
   mset (scores_of ''ndcg_cut_10'' (rev ex_eval_per_query))
     = mset (scores_of ''ndcg_cut_10'' ex_eval_per_query) \<and>
   sum_list (scores_of ''ndcg_cut_10'' (rev ex_eval_per_query))
       / of_nat (length (scores_of ''ndcg_cut_10'' (rev ex_eval_per_query)))
     = sum_list (scores_of ''ndcg_cut_10'' ex_eval_per_query)
         / of_nat (length (scores_of ''ndcg_cut_10'' ex_eval_per_query))"
proof -
  have m: "mset (rev ex_eval_per_query) = mset ex_eval_per_query"
    by simp
  have s: "scores_of ''ndcg_cut_10'' ex_eval_per_query
             = [2841455003081375 / 2 ^ 52, 7758379145826163 / 2 ^ 54, 2841455003081375 / 2 ^ 53]"
    by (simp add: scores_of_def ex_eval_per_query_def)
  note t = reported_mean_of_scores [of double_mean ex_eval_per_query "''ndcg_cut_10''"]
  from t have "dict_get (report double_mean (aggregate ex_eval_per_query)) ''ndcg_cut_10''
     = (if scores_of ''ndcg_cut_10'' ex_eval_per_query = [] then None
        else Some (double_mean (scores_of ''ndcg_cut_10'' ex_eval_per_query)))"
    by (rule conjunct1)
  then have r: "dict_get (report double_mean (aggregate ex_eval_per_query)) ''ndcg_cut_10''
     = Some (double_mean [2841455003081375 / 2 ^ 52, 7758379145826163 / 2 ^ 54,
                          2841455003081375 / 2 ^ 53])"
    by (simp only: s list.distinct if_False)
  from t have "\<forall>permuted. mset permuted = mset ex_eval_per_query \<longrightarrow>
            mset (scores_of ''ndcg_cut_10'' permuted)
              = mset (scores_of ''ndcg_cut_10'' ex_eval_per_query) \<and>
            sum_list (scores_of ''ndcg_cut_10'' permuted)
                / of_nat (length (scores_of ''ndcg_cut_10'' permuted))
              = sum_list (scores_of ''ndcg_cut_10'' ex_eval_per_query)
                  / of_nat (length (scores_of ''ndcg_cut_10'' ex_eval_per_query))"
    by (rule conjunct2)
  from this [rule_format, OF m] m r show ?thesis
    by blast
qed

subsection \<open>Rounding to a double\<close>

lemma round_half_even_near: "\<bar>of_int (round_half_even y) - y\<bar> \<le> 1 / 2"
proof -
  have "of_int \<lfloor>y\<rfloor> \<le> y" and "y < of_int \<lfloor>y\<rfloor> + 1"
    by linarith+
  then show ?thesis
    unfolding round_half_even_def Let_def by (auto simp: abs_le_iff)
qed

lemma pow2_powi: "pow2 k = 2 powi k"
  by (simp add: pow2_def power_int_def field_simps)

lemma pow2_pos: "0 < pow2 k"
  by (simp add: pow2_powi)

lemma pow2_less: "j < k \<Longrightarrow> pow2 j < pow2 k"
  by (simp add: pow2_powi power_int_strict_increasing)

lemma pow2_nat: "0 \<le> k \<Longrightarrow> pow2 k = of_int (2 ^ nat k)"
  by (simp add: pow2_def)

lemma floor_bitlen_bounds:
  fixes y :: rat
  assumes "1 \<le> y"
  shows "pow2 (bitlen \<lfloor>y\<rfloor> - 1) \<le> y \<and> y < pow2 (bitlen \<lfloor>y\<rfloor>)"
proof -
  let ?n = "\<lfloor>y\<rfloor>"
  from assms have n: "0 < ?n"
    by linarith
  from bitlen_bounds [OF n] have lo: "2 ^ nat (bitlen ?n - 1) \<le> ?n" and hi: "?n < 2 ^ nat (bitlen ?n)"
    by simp_all
  have b: "1 \<le> bitlen ?n"
    using n by (simp add: bitlen_alt_def)
  have "pow2 (bitlen ?n - 1) = of_int (2 ^ nat (bitlen ?n - 1))"
    using b by (simp add: pow2_nat)
  also have "\<dots> \<le> of_int ?n"
    using lo by (simp only: of_int_le_iff)
  also have "\<dots> \<le> y"
    by linarith
  finally have l: "pow2 (bitlen ?n - 1) \<le> y" .
  have "y < of_int (?n + 1)"
    by linarith
  also have "\<dots> \<le> of_int (2 ^ nat (bitlen ?n))"
  proof -
    from hi have "?n + 1 \<le> 2 ^ nat (bitlen ?n)"
      by linarith
    then show ?thesis
      by (simp only: of_int_le_iff)
  qed
  also have "\<dots> = pow2 (bitlen ?n)"
    using b by (simp add: pow2_nat)
  finally show ?thesis
    using l by simp
qed

text \<open>The exponent is the right one.\<close>

lemma binade_bounds:
  assumes "x \<noteq> 0"
  shows "pow2 (binade x) \<le> \<bar>x\<bar> \<and> \<bar>x\<bar> < pow2 (binade x + 1)"
proof (cases "1 \<le> \<bar>x\<bar>")
  case True
  with floor_bitlen_bounds [OF True] show ?thesis
    by (simp add: binade_def)
next
  case False
  let ?k = "bitlen \<lfloor>1 / \<bar>x\<bar>\<rfloor> - 1"
  from False assms have x: "0 < \<bar>x\<bar>" "\<bar>x\<bar> < 1"
    by simp_all
  then have "1 \<le> 1 / \<bar>x\<bar>"
    by simp
  from floor_bitlen_bounds [OF this]
  have lo: "pow2 ?k \<le> 1 / \<bar>x\<bar>" and hi: "1 / \<bar>x\<bar> < pow2 (?k + 1)"
    by simp_all
  have inv: "pow2 (- j) = 1 / pow2 j" for j
    by (simp add: pow2_powi power_int_minus field_simps)
  from lo x(1) pow2_pos [of ?k] have "\<bar>x\<bar> \<le> 1 / pow2 ?k"
    by (simp add: field_simps)
  then have up: "\<bar>x\<bar> \<le> pow2 (- ?k)"
    by (simp only: inv)
  from hi x(1) pow2_pos [of "?k + 1"] have "1 / pow2 (?k + 1) < \<bar>x\<bar>"
    by (simp add: field_simps)
  then have "pow2 (- (?k + 1)) < \<bar>x\<bar>"
    by (simp only: inv)
  moreover have "- (?k + 1) = - ?k - 1"
    by simp
  ultimately have down: "pow2 (- ?k - 1) < \<bar>x\<bar>"
    by (simp only:)
  show ?thesis
  proof (cases "\<bar>x\<bar> = pow2 (- ?k)")
    case True
    then have "binade x = - ?k"
      using False by (simp add: binade_def Let_def)
    with True pow2_less [of "- ?k" "- ?k + 1"] show ?thesis
      by simp
  next
    case ne: False
    then have "binade x = - ?k - 1"
      using False by (simp add: binade_def Let_def)
    with ne up down show ?thesis
      by simp
  qed
qed

text \<open>
  Rounding gives a whole multiple of the unit in the last place, at most half a unit away.
\<close>

lemma double_round_near:
  assumes "x \<noteq> 0"
  shows "\<bar>double_round x - x\<bar> \<le> pow2 (binade x - 52) / 2"
proof -
  let ?u = "pow2 (binade x - 52)"
  have u: "0 < ?u"
    by (rule pow2_pos)
  have "double_round x - x = (of_int (round_half_even (x / ?u)) - x / ?u) * ?u"
    using assms u by (simp add: double_round_def round_to_unit_def field_simps)
  then have "\<bar>double_round x - x\<bar> = \<bar>of_int (round_half_even (x / ?u)) - x / ?u\<bar> * ?u"
    using u by (simp add: abs_mult)
  also have "\<dots> \<le> (1 / 2) * ?u"
    using round_half_even_near [of "x / ?u"] u by (intro mult_right_mono) simp_all
  finally show ?thesis
    by simp
qed

subsection \<open>The mean in two orders\<close>

lemma ex_aggregate:
  "aggregate ex_eval_per_query
     = [(''ndcg_cut_10'', [2841455003081375 / 2 ^ 52, 7758379145826163 / 2 ^ 54,
                           2841455003081375 / 2 ^ 53])]"
  by (simp add: aggregate_def append_score_def dict_get_def dict_setitem_def
      ex_eval_per_query_def)

lemma ex_aggregate_rev:
  "aggregate (rev ex_eval_per_query)
     = [(''ndcg_cut_10'', [2841455003081375 / 2 ^ 53, 7758379145826163 / 2 ^ 54,
                           2841455003081375 / 2 ^ 52])]"
  by (simp add: aggregate_def append_score_def dict_get_def dict_setitem_def
      ex_eval_per_query_def)

lemma double_mean_ex:
  "double_mean [2841455003081375 / 2 ^ 52, 7758379145826163 / 2 ^ 54, 2841455003081375 / 2 ^ 53]
     = 8269036388104805 / 2 ^ 54"
  by code_simp

lemma double_mean_ex_rev:
  "double_mean [2841455003081375 / 2 ^ 53, 7758379145826163 / 2 ^ 54, 2841455003081375 / 2 ^ 52]
     = 8269036388104804 / 2 ^ 54"
  by code_simp

lemma double_round_ex:
  "list_all (\<lambda>x. double_round x = x)
     [2841455003081375 / 2 ^ 52, 7758379145826163 / 2 ^ 54, 2841455003081375 / 2 ^ 53]"
  by code_simp

text \<open>
  The claim as stated fails in its second part: the value that \<^verbatim>\<open>np.mean\<close> computes is
  not the same for every order of the queries, since every addition is rounded. For the
  three doubles of the example the reported mean is 0.4590237294768598, and
  0.45902372947685977 when the queries come in the reverse order.
\<close>

theorem reported_mean_order_counterexample:
  "mset (rev ex_eval_per_query) = mset ex_eval_per_query \<and>
   list_all (\<lambda>x. double_round x = x) (scores_of ''ndcg_cut_10'' ex_eval_per_query) \<and>
   dict_get (report double_mean (aggregate ex_eval_per_query)) ''ndcg_cut_10''
     = Some (8269036388104805 / 2 ^ 54) \<and>
   dict_get (report double_mean (aggregate (rev ex_eval_per_query))) ''ndcg_cut_10''
     = Some (8269036388104804 / 2 ^ 54) \<and>
   dict_get (report double_mean (aggregate (rev ex_eval_per_query))) ''ndcg_cut_10''
     \<noteq> dict_get (report double_mean (aggregate ex_eval_per_query)) ''ndcg_cut_10''"
proof -
  have m: "mset (rev ex_eval_per_query) = mset ex_eval_per_query"
    by simp
  have s: "scores_of ''ndcg_cut_10'' ex_eval_per_query
             = [2841455003081375 / 2 ^ 52, 7758379145826163 / 2 ^ 54, 2841455003081375 / 2 ^ 53]"
    by (simp add: scores_of_def ex_eval_per_query_def)
  have d: "list_all (\<lambda>x. double_round x = x) (scores_of ''ndcg_cut_10'' ex_eval_per_query)"
    unfolding s by (rule double_round_ex)
  have a: "dict_get (report double_mean (aggregate ex_eval_per_query)) ''ndcg_cut_10''
     = Some (8269036388104805 / 2 ^ 54)"
    unfolding ex_aggregate report_def dict_get_def
    by (simp only: list.map prod.case map_of.simps fst_conv snd_conv fun_upd_same double_mean_ex)
  have b: "dict_get (report double_mean (aggregate (rev ex_eval_per_query))) ''ndcg_cut_10''
     = Some (8269036388104804 / 2 ^ 54)"
    unfolding ex_aggregate_rev report_def dict_get_def
    by (simp only: list.map prod.case map_of.simps fst_conv snd_conv fun_upd_same
        double_mean_ex_rev)
  have "(8269036388104804 / 2 ^ 54 :: rat) \<noteq> 8269036388104805 / 2 ^ 54"
    by simp
  then have n: "dict_get (report double_mean (aggregate (rev ex_eval_per_query))) ''ndcg_cut_10''
     \<noteq> dict_get (report double_mean (aggregate ex_eval_per_query)) ''ndcg_cut_10''"
    unfolding a b by (simp only: option.inject not_False_eq_True)
  from m d a b n show ?thesis
    by blast
qed

subsection \<open>The metric on the example\<close>

text \<open>
  C6: for the judgments \<^verbatim>\<open>{"q1": {"d1": 1}}\<close> and the ranking
  \<^verbatim>\<open>{"q1": {"d1": 0.9, "d2": 0.1}}\<close> the evaluator gives query \<^verbatim>\<open>q1\<close> the value 1 for
  \<^verbatim>\<open>ndcg_cut_10\<close>.
\<close>

theorem ndcg_example:
  "dict_get (evaluate [(''q1'', [(''d1'', 1)])] [(''q1'', [(''d1'', 9 / 10), (''d2'', 1 / 10)])])
     ''q1'' = Some [(''ndcg_cut_10'', 1)]"
  by (simp add: evaluate_def ndcg_cut_10_def dcg_def dict_get_def)

subsection \<open>The number of indexed documents\<close>

lemma fold_write_action:
  "stored (fold write_action actions idx)
     = dict_update (stored idx) (map (\<lambda>a. (action_id a, a)) actions) \<and>
   searchable (fold write_action actions idx) = searchable idx"
proof (induction actions arbitrary: idx)
  case Nil
  then show ?case by (simp add: dict_update_Nil)
next
  case (Cons a actions)
  show ?case
    using Cons.IH [of "write_action a idx"]
    by (simp add: dict_update_Cons write_action_def)
qed

lemma get_iterable_ids: "map action_id (get_iterable corpus) = map row_id corpus"
  by (simp add: get_iterable_def comp_def)

lemma stored_after_writes:
  assumes "distinct (map row_id corpus)" and "distinct (dict_keys (stored idx))"
    and "set (dict_keys (stored idx)) \<subseteq> set (map row_id corpus)"
  shows "length (stored (fold write_action (get_iterable corpus) idx)) = length corpus"
proof -
  let ?items = "map (\<lambda>a. (action_id a, a)) (get_iterable corpus)"
  let ?d = "dict_update (stored idx) ?items"
  have k: "dict_keys ?items = map row_id corpus"
    using get_iterable_ids [of corpus] by (simp add: dict_keys_def comp_def)
  have "set (dict_keys ?d) = set (dict_keys (stored idx)) \<union> set (map row_id corpus)"
    by (simp only: dict_keys_update k)
  with assms(3) have s: "set (dict_keys ?d) = set (map row_id corpus)"
    by auto
  have d: "distinct (dict_keys ?d)"
    using assms(2) by (rule distinct_dict_update)
  have "length ?d = length (dict_keys ?d)"
    by (simp add: dict_keys_def)
  also have "\<dots> = card (set (dict_keys ?d))"
    using d by (simp add: distinct_card)
  also have "\<dots> = card (set (map row_id corpus))"
    by (simp only: s)
  also have "\<dots> = length corpus"
    using assms(1) by (simp only: distinct_card length_map)
  finally show ?thesis
    by (simp add: fold_write_action)
qed

text \<open>
  C8, as amended: when the ids of the corpus rows are pairwise distinct and every document
  that the index holds beforehand has the id of a corpus row (so also when the index is
  new or empty), then after \<^verbatim>\<open>index_corpus\<close> has completed the index shows as many
  documents as the corpus has rows.
\<close>

theorem index_corpus_count:
  assumes "distinct (map row_id corpus)" and "index_within corpus index_name cl"
    and "index_corpus accepts corpus index_name cl = Inr cl'"
  shows "count_docs index_name cl' = length corpus"
proof -
  let ?idx = "case dict_get cl index_name of None \<Rightarrow> empty_index | Some idx \<Rightarrow> idx"
  let ?new = "fold write_action (get_iterable corpus) ?idx"
  from assms(3) have cl': "cl' = indices_refresh index_name (dict_setitem index_name ?new cl)"
    by (auto simp: index_corpus_def bulk_def split: if_splits sum.splits)
  have "distinct (dict_keys (stored ?idx)) \<and>
        set (dict_keys (stored ?idx)) \<subseteq> set (map row_id corpus)"
    using assms(2)
    by (auto simp: index_within_def empty_index_def dict_keys_Nil list_all_iff
        split: option.splits)
  then have "length (stored ?new) = length corpus"
    using stored_after_writes [OF assms(1)] by blast
  then show ?thesis
    by (simp add: cl' count_docs_def indices_refresh_def dict_get_setitem)
qed

lemma index_corpus_ex:
  "index_corpus (\<lambda>a. True) ex_corpus ''reranking-test-trec-covid''
      (create_index ''reranking-test-trec-covid'' [])
     = Inr [(''reranking-test-trec-covid'',
             \<lparr>stored = map (\<lambda>a. (action_id a, a)) (get_iterable ex_corpus),
              searchable = map (\<lambda>a. (action_id a, a)) (get_iterable ex_corpus)\<rparr>)]"
  by code_simp

theorem index_corpus_count_witness:
  "distinct (map row_id ex_corpus) \<and>
   index_within ex_corpus ''reranking-test-trec-covid''
     (create_index ''reranking-test-trec-covid'' []) \<and>
   (\<exists>cl'. index_corpus (\<lambda>a. True) ex_corpus ''reranking-test-trec-covid''
             (create_index ''reranking-test-trec-covid'' []) = Inr cl' \<and>
          count_docs ''reranking-test-trec-covid'' cl' = length ex_corpus)"
proof -
  have d: "distinct (map row_id ex_corpus)"
    by (simp add: ex_corpus_def)
  have w: "index_within ex_corpus ''reranking-test-trec-covid''
     (create_index ''reranking-test-trec-covid'' [])"
    by code_simp
  from index_corpus_count [OF d w index_corpus_ex] d w index_corpus_ex show ?thesis
    by blast
qed

text \<open>
  The claim as stated fails when the index is reused: \<^verbatim>\<open>create_index\<close> leaves an index
  that exists as it is, and a document stored in it under an id that no corpus row has
  stays in it.
\<close>

theorem index_corpus_count_counterexample:
  "map_sum id (count_docs ''reranking-test-trec-covid'')
     (index_corpus (\<lambda>a. True) ex_corpus ''reranking-test-trec-covid''
        (create_index ''reranking-test-trec-covid'' ex_old_cluster)) = Inr 3 \<and>
   length ex_corpus = 2"
  by code_simp

subsection \<open>What a step prints and calls\<close>

lemma quiet_simps:
  "qids (quiet st) = qids st" "requests (quiet st) = requests st"
  "es_responses (quiet st) = es_responses st" "printed (quiet st) = []" "calls (quiet st) = []"
  "quiet (quiet st) = quiet st"
  by (simp_all add: quiet_def)

lemma log_localI:
  assumes "\<And>st. quiet (f st) = quiet (f (quiet st))"
    and "\<And>st. printed (f st) = printed st @ printed (f (quiet st))"
    and "\<And>st. calls (f st) = calls st @ calls (f (quiet st))"
  shows "log_local f"
  unfolding log_local_def using assms by blast

lemma log_localD:
  assumes "log_local f"
  shows "quiet (f st) = quiet (f (quiet st))"
    and "printed (f st) = printed st @ printed (f (quiet st))"
    and "calls (f st) = calls st @ calls (f (quiet st))"
  using assms unfolding log_local_def by blast+

lemma log_local_comp:
  assumes f: "log_local f" and g: "log_local g"
  shows "log_local (\<lambda>st. g (f st))"
proof (rule log_localI)
  fix st
  have q: "quiet (f st) = quiet (f (quiet st))"
    using f by (rule log_localD)
  have "quiet (g (f st)) = quiet (g (quiet (f st)))"
    using g by (rule log_localD)
  also have "\<dots> = quiet (g (quiet (f (quiet st))))"
    by (simp only: q)
  also have "\<dots> = quiet (g (f (quiet st)))"
    using g by (rule log_localD(1) [symmetric])
  finally show "quiet (g (f st)) = quiet (g (f (quiet st)))" .
  have "printed (g (f st)) = printed (f st) @ printed (g (quiet (f st)))"
    using g by (rule log_localD)
  also have "\<dots> = (printed st @ printed (f (quiet st))) @ printed (g (quiet (f (quiet st))))"
    by (simp only: q log_localD(2) [OF f, of st])
  also have "\<dots> = printed st @ printed (g (f (quiet st)))"
    by (simp only: append_assoc log_localD(2) [OF g, of "f (quiet st)"])
  finally show "printed (g (f st)) = printed st @ printed (g (f (quiet st)))" .
  have "calls (g (f st)) = calls (f st) @ calls (g (quiet (f st)))"
    using g by (rule log_localD)
  also have "\<dots> = (calls st @ calls (f (quiet st))) @ calls (g (quiet (f (quiet st))))"
    by (simp only: q log_localD(3) [OF f, of st])
  also have "\<dots> = calls st @ calls (g (f (quiet st)))"
    by (simp only: append_assoc log_localD(3) [OF g, of "f (quiet st)"])
  finally show "calls (g (f st)) = calls st @ calls (g (f (quiet st)))" .
qed

lemma log_local_id: "log_local (\<lambda>st. st)"
  by (rule log_localI) (simp_all add: quiet_simps)

lemma log_local_enqueue: "log_local (\<lambda>st. enqueue sz st q)"
  by (rule log_localI) (simp_all add: enqueue_def quiet_def)

lemma log_local_flush: "log_local (flush es ix)"
  by (rule log_localI) (simp_all add: flush_def quiet_def split: prod.split)

lemma log_local_if:
  assumes f: "log_local f" and g: "log_local g" and c: "\<And>st. c (quiet st) = c st"
  shows "log_local (\<lambda>st. if c st then f st else g st)"
proof (rule log_localI)
  fix st
  show "quiet (if c st then f st else g st)
          = quiet (if c (quiet st) then f (quiet st) else g (quiet st))"
  proof (cases "c st")
    case True
    then show ?thesis
      by (simp only: c if_True) (rule log_localD(1) [OF f])
  next
    case False
    then show ?thesis
      by (simp only: c if_False) (rule log_localD(1) [OF g])
  qed
  show "printed (if c st then f st else g st)
          = printed st @ printed (if c (quiet st) then f (quiet st) else g (quiet st))"
  proof (cases "c st")
    case True
    then show ?thesis
      by (simp only: c if_True) (rule log_localD(2) [OF f])
  next
    case False
    then show ?thesis
      by (simp only: c if_False) (rule log_localD(2) [OF g])
  qed
  show "calls (if c st then f st else g st)
          = calls st @ calls (if c (quiet st) then f (quiet st) else g (quiet st))"
  proof (cases "c st")
    case True
    then show ?thesis
      by (simp only: c if_True) (rule log_localD(3) [OF f])
  next
    case False
    then show ?thesis
      by (simp only: c if_False) (rule log_localD(3) [OF g])
  qed
qed

lemma log_local_leftovers: "log_local (leftovers es ix)"
proof -
  have "log_local (\<lambda>st. if length (qids st) > 0 then flush es ix st else st)"
    by (rule log_local_if [OF log_local_flush log_local_id]) (simp add: quiet_simps)
  then show ?thesis
    by (simp add: leftovers_def [abs_def])
qed

lemma log_local_step: "log_local (\<lambda>st. retrieve_step es ix sz bs st q)"
proof -
  have "log_local (\<lambda>st. if int (length (qids st)) = bs then flush es ix st else st)"
    by (rule log_local_if [OF log_local_flush log_local_id]) (simp add: quiet_simps)
  from log_local_comp [OF log_local_enqueue this, of sz q] show ?thesis
    by (simp add: retrieve_step_def Let_def)
qed

lemma log_local_loop: "log_local (\<lambda>st. retrieve_loop es ix sz bs st qs)"
proof (induction qs)
  case Nil
  then show ?case by (simp add: log_local_id)
next
  case (Cons q qs)
  from log_local_comp [OF log_local_step Cons.IH, of es ix sz bs q] show ?case
    by simp
qed

lemma log_local_run: "log_local (\<lambda>st. leftovers es ix (retrieve_loop es ix sz bs st qs))"
  using log_local_loop log_local_leftovers by (rule log_local_comp)

subsection \<open>A batch whose request fails\<close>

lemma retrieve_loop_append:
  "retrieve_loop es ix sz bs st (xs @ ys)
     = retrieve_loop es ix sz bs (retrieve_loop es ix sz bs st xs) ys"
  by (induction xs arbitrary: st) simp_all

lemma enqueue_all_Nil: "enqueue_all sz st [] = st"
  by (simp add: enqueue_all_def)

lemma enqueue_all_Cons: "enqueue_all sz st (q # qs) = enqueue_all sz (enqueue sz st q) qs"
  by (simp add: enqueue_all_def)

lemma enqueue_all_snoc: "enqueue_all sz st (qs @ [q]) = enqueue sz (enqueue_all sz st qs) q"
  by (simp add: enqueue_all_def)

lemma enqueue_all_simps:
  "qids (enqueue_all sz st b) = qids st @ map q_id b"
  "requests (enqueue_all sz st b) = requests st @ requests_of sz b"
  "es_responses (enqueue_all sz st b) = es_responses st"
  "printed (enqueue_all sz st b) = printed st"
  "calls (enqueue_all sz st b) = calls st"
  by (induction b arbitrary: st)
    (simp_all add: enqueue_all_Nil enqueue_all_Cons enqueue_simps requests_of_def)

text \<open>No batch is sent while fewer than \<^verbatim>\<open>batch_size\<close> queries are pending.\<close>

lemma retrieve_loop_pending:
  assumes "bs \<le> 0 \<or> int (length (qids st)) + int (length b) < bs"
  shows "retrieve_loop es ix sz bs st b = enqueue_all sz st b"
  using assms
proof (induction b arbitrary: st)
  case Nil
  then show ?case by (simp add: enqueue_all_Nil)
next
  case (Cons q b)
  from Cons.prems have "int (length (qids (enqueue sz st q))) \<noteq> bs"
    by (auto simp: enqueue_simps)
  then have s: "retrieve_step es ix sz bs st q = enqueue sz st q"
    by (simp add: retrieve_step_def Let_def)
  from Cons.prems
  have "bs \<le> 0 \<or> int (length (qids (enqueue sz st q))) + int (length b) < bs"
    by (auto simp: enqueue_simps)
  from Cons.IH [OF this] show ?case
    by (simp add: s enqueue_all_Cons)
qed

text \<open>The batch is sent when the pending queries reach \<^verbatim>\<open>batch_size\<close>.\<close>

lemma retrieve_loop_full:
  assumes "0 < bs" and "int (length (qids st)) + int (length b) = bs" and "b \<noteq> []"
  shows "retrieve_loop es ix sz bs st b = flush es ix (enqueue_all sz st b)"
proof -
  from assms(3) obtain b' q where b: "b = b' @ [q]"
    by (cases b rule: rev_cases) auto
  with assms(2) have "bs \<le> 0 \<or> int (length (qids st)) + int (length b') < bs"
    by simp
  then have l: "retrieve_loop es ix sz bs st b' = enqueue_all sz st b'"
    by (rule retrieve_loop_pending)
  have "int (length (qids (enqueue sz (enqueue_all sz st b') q))) = bs"
    using assms(2) by (simp add: b enqueue_simps enqueue_all_simps)
  then have "retrieve_step es ix sz bs (enqueue_all sz st b') q
               = flush es ix (enqueue sz (enqueue_all sz st b') q)"
    by (simp add: retrieve_step_def Let_def)
  then show ?thesis
    by (simp add: b retrieve_loop_append l enqueue_all_snoc)
qed

lemma idle_flush: "idle (flush es ix st)"
  by (simp add: idle_def flush_qids flush_requests)

text \<open>After a whole number of full batches nothing is pending.\<close>

lemma idle_after_full_batches:
  assumes "0 < bs" and "idle st" and "int (length pre) mod bs = 0"
  shows "idle (retrieve_loop es ix sz bs st pre)"
  using assms(2,3)
proof (induction pre arbitrary: st rule: length_induct)
  case (1 pre)
  show ?case
  proof (cases "pre = []")
    case True
    with 1(2) show ?thesis by simp
  next
    case False
    let ?n = "nat bs"
    have len: "bs \<le> int (length pre)"
    proof (rule ccontr)
      assume "\<not> bs \<le> int (length pre)"
      then have "int (length pre) mod bs = int (length pre)"
        by simp
      with 1(3) False show False
        by simp
    qed
    let ?b = "take ?n pre" and ?r = "drop ?n pre"
    have lb: "int (length ?b) = bs"
      using len assms(1) by simp
    have ne: "?b \<noteq> []"
    proof
      assume "?b = []"
      then have "int (length ?b) = 0"
        by (simp only: list.size of_nat_0)
      with lb assms(1) show False
        by linarith
    qed
    have "retrieve_loop es ix sz bs st ?b = flush es ix (enqueue_all sz st ?b)"
      using assms(1) _ ne
    proof (rule retrieve_loop_full)
      show "int (length (qids st)) + int (length ?b) = bs"
        using 1(2) lb by (simp add: idle_def)
    qed
    then have i: "idle (retrieve_loop es ix sz bs st ?b)"
      by (simp add: idle_flush)
    have lr: "length ?r < length pre"
      using False assms(1) by (simp add: length_greater_0_conv)
    have "int (length ?r) = int (length pre) - bs"
      using len assms(1) by simp
    then have m: "int (length ?r) mod bs = 0"
      using 1(3) by (simp only: minus_mod_self2)
    have "idle (retrieve_loop es ix sz bs (retrieve_loop es ix sz bs st ?b) ?r)"
      using 1(1) [rule_format, OF lr i m] .
    then have "idle (retrieve_loop es ix sz bs st (?b @ ?r))"
      by (simp only: retrieve_loop_append)
    then show ?thesis
      by (simp only: append_take_drop_id)
  qed
qed

lemma flush_failed:
  assumes "es (mk_call ix (requests st)) = Inl e"
  shows "flush es ix st =
           st\<lparr>qids := [], requests := [], printed := printed st @ [e],
              calls := calls st @ [mk_call ix (requests st)]\<rparr>"
  by (simp add: flush_def retrieve_batch_Inl [where es = es, OF assms] dict_update_Nil)


lemma leftovers_idle: "idle st \<Longrightarrow> leftovers es ix st = st"
  by (simp add: leftovers_def idle_def)

lemma idle_init: "idle retrieve_init"
  by (simp add: idle_def retrieve_init_def)

text \<open>
  From a state with nothing pending, a batch whose request fails leaves the state as it
  was, but for one line printed and one call made.
\<close>

lemma failed_batch_run:
  assumes b: "is_batch bs pre b post" and e: "es (mk_call ix (requests_of sz b)) = Inl e"
    and i: "idle st"
  shows "leftovers es ix (retrieve_loop es ix sz bs st (b @ post))
           = leftovers es ix (retrieve_loop es ix sz bs
               (st\<lparr>printed := printed st @ [e],
                   calls := calls st @ [mk_call ix (requests_of sz b)]\<rparr>) post)"
proof -
  let ?st = "st\<lparr>printed := printed st @ [e],
                 calls := calls st @ [mk_call ix (requests_of sz b)]\<rparr>"
  from b have ne: "b \<noteq> []"
    by (simp add: is_batch_def)
  have rq: "requests (enqueue_all sz st b) = requests_of sz b"
    and qd: "qids (enqueue_all sz st b) = map q_id b"
    using i by (simp_all add: enqueue_all_simps idle_def)
  have fl: "flush es ix (enqueue_all sz st b) = ?st"
    using i flush_failed [of es ix "enqueue_all sz st b" e] e
    by (simp add: rq enqueue_all_simps idle_def)
  have i': "idle ?st"
    using i by (simp add: idle_def)
  show ?thesis
  proof (cases "0 < bs \<and> int (length b) = bs")
    case True
    then have "retrieve_loop es ix sz bs st b = flush es ix (enqueue_all sz st b)"
      using i ne by (intro retrieve_loop_full) (simp_all add: idle_def)
    then show ?thesis
      by (simp add: retrieve_loop_append fl)
  next
    case False
    with b have post: "post = []" and p: "bs \<le> 0 \<or> int (length (qids st)) + int (length b) < bs"
      using i by (auto simp: is_batch_def idle_def split: if_splits)
    from p have "retrieve_loop es ix sz bs st b = enqueue_all sz st b"
      by (rule retrieve_loop_pending)
    moreover have "leftovers es ix (enqueue_all sz st b) = flush es ix (enqueue_all sz st b)"
      using ne by (simp add: leftovers_def qd)
    ultimately show ?thesis
      by (simp add: post fl leftovers_idle [OF i'])
  qed
qed

text \<open>
  C2: the search engine is a function of the call. When the request of a batch fails with
  an exception \<open>e\<close>, the mapping returned is the one returned for the input without the
  queries of that batch, so the other batches are unaffected and the batch adds no entry:
  an id of the batch is not a key of the result (unless another batch holds a query with
  the same id). Compared with the run without the batch, the message of \<open>e\<close> is the one
  line printed in addition and the request of the batch is the one call made in addition:
  the exception is caught and printed and the request is not tried again.
\<close>

theorem failed_batch_is_dropped:
  assumes "is_batch batch_size pre b post"
    and "es (mk_call index_name (requests_of sz b)) = Inl e"
  shows "es_responses (retrieve (pre @ b @ post) es index_name sz batch_size)
           = es_responses (retrieve (pre @ post) es index_name sz batch_size) \<and>
         (\<forall>q \<in> set b. q_id q \<notin> q_id ` set (pre @ post) \<longrightarrow>
            dict_get (es_responses (retrieve (pre @ b @ post) es index_name sz batch_size)) (q_id q)
              = None) \<and>
         (\<exists>rest. printed (retrieve (pre @ post) es index_name sz batch_size)
                   = printed (retrieve pre es index_name sz batch_size) @ rest \<and>
                 printed (retrieve (pre @ b @ post) es index_name sz batch_size)
                   = printed (retrieve pre es index_name sz batch_size) @ [e] @ rest) \<and>
         (\<exists>rest. calls (retrieve (pre @ post) es index_name sz batch_size)
                   = calls (retrieve pre es index_name sz batch_size) @ rest \<and>
                 calls (retrieve (pre @ b @ post) es index_name sz batch_size)
                   = calls (retrieve pre es index_name sz batch_size)
                       @ [mk_call index_name (requests_of sz b)] @ rest)"
proof -
  let ?run = "\<lambda>st. leftovers es index_name (retrieve_loop es index_name sz batch_size st post)"
  let ?s1 = "retrieve_loop es index_name sz batch_size retrieve_init pre"
  let ?s2 = "?s1\<lparr>printed := printed ?s1 @ [e],
                  calls := calls ?s1 @ [mk_call index_name (requests_of sz b)]\<rparr>"
  let ?with = "retrieve (pre @ b @ post) es index_name sz batch_size"
  let ?without = "retrieve (pre @ post) es index_name sz batch_size"
  have i: "idle ?s1"
  proof (cases "0 < batch_size")
    case True
    with assms(1) have "int (length pre) mod batch_size = 0"
      by (simp add: is_batch_def)
    with True idle_init show ?thesis
      by (rule idle_after_full_batches)
  next
    case False
    with assms(1) have "pre = []"
      by (simp add: is_batch_def)
    then show ?thesis
      by (simp add: idle_init)
  qed
  have pre: "retrieve pre es index_name sz batch_size = ?s1"
    by (simp add: retrieve_def leftovers_idle [OF i])
  have w: "?with = ?run ?s2"
    using failed_batch_run [where es = es, OF assms i] by (simp add: retrieve_def retrieve_loop_append)
  have wo: "?without = ?run ?s1"
    by (simp add: retrieve_def retrieve_loop_append)
  have l: "log_local ?run"
    by (rule log_local_run)
  have q: "quiet ?s2 = quiet ?s1"
    by (simp add: quiet_def)
  have "quiet ?with = quiet (?run (quiet ?s2))"
    unfolding w using l by (rule log_localD)
  also have "\<dots> = quiet (?run (quiet ?s1))"
    by (simp only: q)
  also have "\<dots> = quiet ?without"
    unfolding wo using l by (rule log_localD(1) [symmetric])
  finally have "es_responses (quiet ?with) = es_responses (quiet ?without)"
    by (rule arg_cong)
  then have same: "es_responses ?with = es_responses ?without"
    by (simp only: quiet_simps)
  have absent: "dict_get (es_responses ?with) (q_id q) = None"
    if "q_id q \<notin> q_id ` set (pre @ post)" for q
  proof -
    from that retrieve_keys_subset [of "pre @ post" es index_name sz batch_size]
    have "q_id q \<notin> set (dict_keys (es_responses ?without))"
      by blast
    then show ?thesis
      by (simp add: same dict_get_def dict_keys_def map_of_eq_None_iff)
  qed
  let ?p = "printed (?run (quiet ?s1))" and ?c = "calls (?run (quiet ?s1))"
  have "printed ?with = printed ?s2 @ printed (?run (quiet ?s2))"
    unfolding w using l by (rule log_localD)
  then have pw: "printed ?with = printed ?s1 @ [e] @ ?p"
    by (simp add: q)
  have pwo: "printed ?without = printed ?s1 @ ?p"
    unfolding wo using l by (rule log_localD)
  have "calls ?with = calls ?s2 @ calls (?run (quiet ?s2))"
    unfolding w using l by (rule log_localD)
  then have cw: "calls ?with = calls ?s1 @ [mk_call index_name (requests_of sz b)] @ ?c"
    by (simp add: q)
  have cwo: "calls ?without = calls ?s1 @ ?c"
    unfolding wo using l by (rule log_localD)
  from same absent pw pwo cw cwo show ?thesis
    unfolding pre by blast
qed


theorem failed_batch_is_dropped_witness:
  "is_batch 2 ex_queries
     [\<lparr>q_id = ''q3'', q_text = ''boom''\<rparr>, \<lparr>q_id = ''q4'', q_text = ''x''\<rparr>]
     [\<lparr>q_id = ''q5'', q_text = ''y''\<rparr>] \<and>
   ex_failing_es (mk_call ''ix'' (requests_of 10
     [\<lparr>q_id = ''q3'', q_text = ''boom''\<rparr>, \<lparr>q_id = ''q4'', q_text = ''x''\<rparr>]))
     = Inl ''ConnectionTimeout'' \<and>
   es_responses (retrieve
       (ex_queries @ [\<lparr>q_id = ''q3'', q_text = ''boom''\<rparr>, \<lparr>q_id = ''q4'', q_text = ''x''\<rparr>]
          @ [\<lparr>q_id = ''q5'', q_text = ''y''\<rparr>]) ex_failing_es ''ix'' 10 2)
     = es_responses (retrieve (ex_queries @ [\<lparr>q_id = ''q5'', q_text = ''y''\<rparr>])
         ex_failing_es ''ix'' 10 2) \<and>
   dict_get (es_responses (retrieve
       (ex_queries @ [\<lparr>q_id = ''q3'', q_text = ''boom''\<rparr>, \<lparr>q_id = ''q4'', q_text = ''x''\<rparr>]
          @ [\<lparr>q_id = ''q5'', q_text = ''y''\<rparr>]) ex_failing_es ''ix'' 10 2)) ''q3'' = None \<and>
   dict_keys (es_responses (retrieve
       (ex_queries @ [\<lparr>q_id = ''q3'', q_text = ''boom''\<rparr>, \<lparr>q_id = ''q4'', q_text = ''x''\<rparr>]
          @ [\<lparr>q_id = ''q5'', q_text = ''y''\<rparr>]) ex_failing_es ''ix'' 10 2))
     = [''q1'', ''q2'', ''q5'']"
proof -
  let ?b = "[\<lparr>q_id = ''q3'', q_text = ''boom''\<rparr>, \<lparr>q_id = ''q4'', q_text = ''x''\<rparr>]"
  let ?post = "[\<lparr>q_id = ''q5'', q_text = ''y''\<rparr>]"
  have b: "is_batch 2 ex_queries ?b ?post"
    by (simp add: is_batch_def ex_queries_def)
  have e: "ex_failing_es (mk_call ''ix'' (requests_of 10 ?b)) = Inl ''ConnectionTimeout''"
    by (simp add: ex_failing_es_def mk_call_def requests_of_def generate_request_def)
  note t = failed_batch_is_dropped [where es = ex_failing_es, OF b e]
  from t have same: "es_responses (retrieve (ex_queries @ ?b @ ?post) ex_failing_es ''ix'' 10 2)
     = es_responses (retrieve (ex_queries @ ?post) ex_failing_es ''ix'' 10 2)"
    by (rule conjunct1)
  from t have "\<forall>q \<in> set ?b. q_id q \<notin> q_id ` set (ex_queries @ ?post) \<longrightarrow>
      dict_get (es_responses (retrieve (ex_queries @ ?b @ ?post) ex_failing_es ''ix'' 10 2)) (q_id q)
        = None"
    by (rule conjunct2 [THEN conjunct1])
  then have absent:
    "dict_get (es_responses (retrieve (ex_queries @ ?b @ ?post) ex_failing_es ''ix'' 10 2)) ''q3''
       = None"
    by (simp add: ex_queries_def)
  have "dict_keys (es_responses (retrieve (ex_queries @ ?post) ex_failing_es ''ix'' 10 2))
          = [''q1'', ''q2'', ''q5'']"
    by code_simp
  with same have keys:
    "dict_keys (es_responses (retrieve (ex_queries @ ?b @ ?post) ex_failing_es ''ix'' 10 2))
       = [''q1'', ''q2'', ''q5'']"
    by simp
  from b e same absent keys show ?thesis
    by blast
qed

subsection \<open>When the reranking cell runs to its end\<close>

text \<open>
  The reranking cell runs to its end when every key of the first-stage result is the id
  of a query and every candidate is the id of a corpus row.
\<close>

lemma dict_get_of_items_Some:
  assumes "k \<in> fst ` set items"
  shows "\<exists>v. dict_get (dict_of_items items) k = Some v"
proof -
  from assms have "k \<in> set (dict_keys items)"
    by (simp add: dict_keys_def)
  then have "k \<in> set (dict_keys (dict_of_items items))"
    by (simp only: dict_keys_of_items)
  then have "map_of (dict_of_items items) k \<noteq> None"
    by (simp add: dict_keys_def map_of_eq_None_iff)
  then show ?thesis
    by (auto simp: dict_get_def)
qed

lemma lookup_all_returns:
  "\<forall>doc_id \<in> set doc_ids. \<exists>t. dict_get corpus_dict doc_id = Some t \<Longrightarrow>
     \<exists>doc_texts. lookup_all corpus_dict doc_ids = Inr doc_texts"
  by (induction doc_ids) auto

lemma rerank_query_returns:
  assumes "qid \<in> q_id ` set queries" and "set (dict_keys bm25_res) \<subseteq> row_id ` set corpus"
  shows "\<exists>out. rerank_query predict (queries_dict_of queries) (corpus_dict_of corpus) qid bm25_res
                 = Inr out"
proof -
  from assms(1) obtain query_text
    where q: "dict_get (queries_dict_of queries) qid = Some query_text"
    using dict_get_of_items_Some [of qid "map (\<lambda>q. (q_id q, q_text q)) queries"]
    by (auto simp: queries_dict_of_def image_image)
  have "\<exists>t. dict_get (corpus_dict_of corpus) doc_id = Some t"
    if "doc_id \<in> set (map fst bm25_res)" for doc_id
  proof -
    from that assms(2) have "doc_id \<in> row_id ` set corpus"
      by (auto simp: dict_keys_def)
    then show ?thesis
      using dict_get_of_items_Some
        [of doc_id "map (\<lambda>doc. (row_id doc, row_title doc @ '' '' @ row_text doc)) corpus"]
      by (auto simp: corpus_dict_of_def image_image)
  qed
  then obtain doc_texts
    where "lookup_all (corpus_dict_of corpus) (map fst bm25_res) = Inr doc_texts"
    using lookup_all_returns [of "map fst bm25_res" "corpus_dict_of corpus"] by blast
  with q show ?thesis
    by (simp add: rerank_query_def Let_def)
qed

lemma rerank_loop_returns:
  assumes "set (dict_keys rest) \<subseteq> q_id ` set queries"
    and "\<forall>(qid, bm25_res) \<in> set rest. set (dict_keys bm25_res) \<subseteq> row_id ` set corpus"
  shows "\<exists>st'. rerank_loop predict (queries_dict_of queries) (corpus_dict_of corpus) st rest
                 = Inr st'"
  using assms
proof (induction rest arbitrary: st)
  case Nil
  then show ?case by simp
next
  case (Cons p rest)
  obtain qid bm25_res where p: "p = (qid, bm25_res)" by (cases p)
  from Cons.prems have "qid \<in> q_id ` set queries"
    and "set (dict_keys bm25_res) \<subseteq> row_id ` set corpus"
    by (simp_all add: p dict_keys_Cons)
  then obtain res ps
    where q: "rerank_query predict (queries_dict_of queries) (corpus_dict_of corpus) qid bm25_res
                = Inr (res, ps)"
    using rerank_query_returns [of qid queries bm25_res corpus predict] by fastforce
  from Cons.prems have "set (dict_keys rest) \<subseteq> q_id ` set queries"
    and "\<forall>(qid, bm25_res) \<in> set rest. set (dict_keys bm25_res) \<subseteq> row_id ` set corpus"
    by (simp_all add: p dict_keys_Cons)
  from Cons.IH [OF this] show ?case
    by (simp add: p q)
qed

lemma rerank_returns:
  assumes "set (dict_keys bm25_responses) \<subseteq> q_id ` set queries"
    and "\<forall>(qid, bm25_res) \<in> set bm25_responses.
           set (dict_keys bm25_res) \<subseteq> row_id ` set corpus"
  shows "\<exists>st. rerank predict queries corpus bm25_responses = Inr st"
  unfolding rerank_def using assms by (rule rerank_loop_returns)

subsection \<open>An answer with an item without hits\<close>

text \<open>
  When the request returns but an item of the answer carries no hits, the
  \<^verbatim>\<open>KeyError\<close> is caught and printed as well; the entries stored before that item are
  kept and the later queries of the batch get none.
\<close>

lemma retrieve_batch_partial:
  "retrieve_batch (\<lambda>c. Inr [Hits [\<lparr>hit_id = ''d1'', hit_score = 7\<rparr>], NoHits, Hits []])
     ''ix'' [''q1'', ''q2'', ''q3''] es_requests
     = ([(''q1'', [(''d1'', 7)])], [CHR 0x27 # ''hits'' @ [CHR 0x27]])"
  by (simp add: retrieve_batch_def dict_setitem_def dict_of_items_def dict_update_def)

end
